theory Spec2Isabelle
  imports Main
begin

section \<open>Data model (src/types/analysis.ts)\<close>

text \<open>
  \<^verbatim>\<open>ContentChunk { content: string; fileCount: number; totalSize: number }\<close> and
  \<^verbatim>\<open>FileObject { path: string; content: string; size: number; type: 'file' | 'dir' }\<close>.
  A JavaScript string is a sequence of UTF-16 code units; it is modelled as a
  \<^typ>\<open>string\<close>, one \<^typ>\<open>char\<close> per code unit, so that \<^term>\<open>length\<close> is \<^verbatim>\<open>.length\<close>.
  The fields \<^verbatim>\<open>size\<close> and \<^verbatim>\<open>type\<close> are written \<open>size'\<close> and \<open>type'\<close>, the
  plain names being taken in HOL. Sizes are integers: the repository fetcher copies them
  from the hosting API, independently of the content it stores.
\<close>

record ContentChunk =
  content :: string
  fileCount :: nat
  totalSize :: int

datatype FileType = File | Dir

record FileObject =
  path :: string
  content :: string
  size' :: int
  type' :: FileType

section \<open>JavaScript library functions used by the code\<close>

text \<open>\<^verbatim>\<open>s.split(d)\<close> for a one-character separator: never an empty array.\<close>

fun split :: "string \<Rightarrow> char \<Rightarrow> string list" where
  "split [] d = [[]]"
| "split (c # cs) d =
     (if c = d then [] # split cs d
      else (case split cs d of [] \<Rightarrow> [[c]] | p # ps \<Rightarrow> (c # p) # ps))"

text \<open>\<^verbatim>\<open>s.startsWith(t)\<close> and \<^verbatim>\<open>s.includes(t)\<close>.\<close>

fun startsWith :: "string \<Rightarrow> string \<Rightarrow> bool" where
  "startsWith s [] = True"
| "startsWith [] (d # ds) = False"
| "startsWith (c # cs) (d # ds) = (c = d \<and> startsWith cs ds)"

fun includesStr :: "string \<Rightarrow> string \<Rightarrow> bool" where
  "includesStr [] t = startsWith [] t"
| "includesStr (c # cs) t = (startsWith (c # cs) t \<or> includesStr cs t)"

text \<open>\<^verbatim>\<open>xs.findIndex(p)\<close>: the first index where \<open>p\<close> holds, \<open>-1\<close> when there is none.\<close>

fun findIndex :: "('a \<Rightarrow> bool) \<Rightarrow> 'a list \<Rightarrow> int" where
  "findIndex p [] = - 1"
| "findIndex p (x # xs) =
     (if p x then 0 else (let i = findIndex p xs in if i < 0 then - 1 else i + 1))"

text \<open>
  \<^verbatim>\<open>xs.sort(cmp)\<close>: the sort is stable, and \<open>a\<close> is placed after \<open>b\<close> only when
  \<open>cmp a b > 0\<close>. For a consistent comparator this is the stable insertion sort below.
\<close>

fun insertBy :: "('a \<Rightarrow> 'a \<Rightarrow> int) \<Rightarrow> 'a \<Rightarrow> 'a list \<Rightarrow> 'a list" where
  "insertBy cmp x [] = [x]"
| "insertBy cmp x (y # ys) = (if cmp x y \<le> 0 then x # y # ys else y # insertBy cmp x ys)"

definition sortBy :: "('a \<Rightarrow> 'a \<Rightarrow> int) \<Rightarrow> 'a list \<Rightarrow> 'a list" where
  "sortBy cmp xs = foldr (insertBy cmp) xs []"

section \<open>The selector (src/lib/fileSelector.ts)\<close>

definition MAX_FILE_SIZE :: int where
  "MAX_FILE_SIZE = 100 * 1024"

definition MAX_TOTAL_CONTENT :: int where
  "MAX_TOTAL_CONTENT = 50 * 1024"

definition PRIORITY_1_FILES :: "string list" where
  "PRIORITY_1_FILES = [''README.md'', ''README.txt'', ''README'', ''CONTRIBUTING.md'',
     ''LICENSE'', ''LICENSE.md'', ''LICENSE.txt'']"

definition PRIORITY_2_PATTERNS :: "string list" where
  "PRIORITY_2_PATTERNS = [''package.json'', ''tsconfig.json'', ''next.config.js'',
     ''next.config.mjs'', ''tailwind.config.js'', ''tailwind.config.ts'', ''.eslintrc'',
     ''.eslintrc.js'', ''.eslintrc.json'', ''eslint.config.js'', ''.prettierrc'',
     ''.prettierrc.js'', ''.prettierrc.json'', ''jest.config.js'', ''jest.config.ts'',
     ''Dockerfile'', ''docker-compose.yml'', ''.env.example'', ''.gitignore'',
     ''vite.config.js'', ''vite.config.ts'', ''webpack.config.js'']"

definition ENTRY_POINT_PATTERNS :: "string list" where
  "ENTRY_POINT_PATTERNS = [''index.ts'', ''index.js'', ''main.ts'', ''main.js'', ''app.ts'',
     ''app.js'', ''server.ts'', ''server.js'']"

definition PRIORITY_DIRECTORIES :: "string list" where
  "PRIORITY_DIRECTORIES = [''/src/'', ''/lib/'', ''/app/'', ''/components/'', ''/pages/'',
     ''/api/'']"

text \<open>The two variables the closure \<^verbatim>\<open>addFile\<close> updates.\<close>

record SelectionState =
  selectedFiles :: "FileObject list"
  totalSize :: int

definition initialState :: SelectionState where
  "initialState = \<lparr>selectedFiles = [], totalSize = 0\<rparr>"

text \<open>The marker \<^verbatim>\<open>'\n... (truncated)'\<close>.\<close>

definition truncationMarker :: string where
  "truncationMarker = CHR 0x0A # ''... (truncated)''"

text \<open>\<^verbatim>\<open>file.content.substring(0, MAX_FILE_SIZE) + '\n... (truncated)'\<close>\<close>

definition truncatedContent :: "FileObject \<Rightarrow> string" where
  "truncatedContent file = take (nat MAX_FILE_SIZE) (FileObject.content file) @ truncationMarker"

text \<open>The record pushed for an oversized file: a copy with two fields replaced.\<close>

definition truncatedFile :: "FileObject \<Rightarrow> FileObject" where
  "truncatedFile file =
     file\<lparr>FileObject.content := truncatedContent file,
          size' := int (length (truncatedContent file))\<rparr>"

text \<open>\<^verbatim>\<open>addFile\<close>: the returned flag and the updated variables.\<close>

definition addFile :: "SelectionState \<Rightarrow> FileObject \<Rightarrow> bool \<times> SelectionState" where
  "addFile st file =
     (if size' file > MAX_FILE_SIZE then
        (let st' = \<lparr>selectedFiles = selectedFiles st @ [truncatedFile file],
                    totalSize = totalSize st + int (length (truncatedContent file))\<rparr>
         in (totalSize st' < MAX_TOTAL_CONTENT, st'))
      else if totalSize st + size' file > MAX_TOTAL_CONTENT then (False, st)
      else (True, \<lparr>selectedFiles = selectedFiles st @ [file],
                   totalSize = totalSize st + size' file\<rparr>))"

text \<open>\<^verbatim>\<open>for (const file of candidates) { if (!addFile(file)) break; }\<close>\<close>

fun runPass :: "SelectionState \<Rightarrow> FileObject list \<Rightarrow> SelectionState" where
  "runPass st [] = st"
| "runPass st (file # rest) =
     (case addFile st file of (ok, st') \<Rightarrow> if ok then runPass st' rest else st')"

text \<open>\<^verbatim>\<open>f.path.split('/').pop() || ''\<close>\<close>

definition fileName :: "FileObject \<Rightarrow> string" where
  "fileName f = (let parts = split (path f) CHR ''/'' in
     if parts = [] \<or> last parts = [] then [] else last parts)"

text \<open>\<^verbatim>\<open>f.path.split('/').length\<close>\<close>

definition depth :: "FileObject \<Rightarrow> nat" where
  "depth f = length (split (path f) CHR ''/'')"

definition priority1 :: "FileObject list \<Rightarrow> FileObject list" where
  "priority1 files = filter (\<lambda>f. fileName f \<in> set PRIORITY_1_FILES) files"

definition priority2 :: "FileObject list \<Rightarrow> FileObject list" where
  "priority2 files = filter (\<lambda>f. fileName f \<in> set PRIORITY_2_PATTERNS) files"

definition depthCompare :: "FileObject \<Rightarrow> FileObject \<Rightarrow> int" where
  "depthCompare a b = int (depth a) - int (depth b)"

definition entryPoints :: "FileObject list \<Rightarrow> FileObject list" where
  "entryPoints files =
     sortBy depthCompare (filter (\<lambda>f. fileName f \<in> set ENTRY_POINT_PATTERNS) files)"

definition dirIndex :: "FileObject \<Rightarrow> int" where
  "dirIndex f = findIndex (\<lambda>dir. includesStr (path f) dir) PRIORITY_DIRECTORIES"

definition sourceCompare :: "FileObject \<Rightarrow> FileObject \<Rightarrow> int" where
  "sourceCompare a b =
     (let aDirIndex = dirIndex a; bDirIndex = dirIndex b in
      if aDirIndex \<noteq> bDirIndex then aDirIndex - bDirIndex
      else int (depth a) - int (depth b))"

definition sourceFiles :: "FileObject list \<Rightarrow> FileObject list" where
  "sourceFiles files =
     sortBy sourceCompare
       (filter (\<lambda>f. list_ex (\<lambda>dir. includesStr (path f) dir) PRIORITY_DIRECTORIES) files)"

text \<open>\<^verbatim>\<open>selectedFiles.some(sf => sf.path === file.path)\<close>\<close>

definition alreadySelected :: "SelectionState \<Rightarrow> FileObject \<Rightarrow> bool" where
  "alreadySelected st file = list_ex (\<lambda>sf. path sf = path file) (selectedFiles st)"

text \<open>
  The fourth loop, with its counter \<^verbatim>\<open>sourceFileCount\<close>: it stops at 20 added files,
  skips (without counting) a file whose path is selected already, and stops when
  \<^verbatim>\<open>addFile\<close> returns false.
\<close>

fun sourcePass :: "nat \<Rightarrow> SelectionState \<Rightarrow> FileObject list \<Rightarrow> SelectionState" where
  "sourcePass sourceFileCount st [] = st"
| "sourcePass sourceFileCount st (file # rest) =
     (if sourceFileCount \<ge> 20 then st
      else if alreadySelected st file then sourcePass sourceFileCount st rest
      else (case addFile st file of
              (ok, st') \<Rightarrow> if ok then sourcePass (sourceFileCount + 1) st' rest else st'))"

text \<open>
  The candidates of the last loop. \<^verbatim>\<open>a.path.localeCompare(b.path)\<close> depends on the
  host's locale data, so the comparison is a parameter \<open>localeCompare\<close> of the model.
\<close>

definition rootFiles ::
  "(string \<Rightarrow> string \<Rightarrow> int) \<Rightarrow> SelectionState \<Rightarrow> FileObject list \<Rightarrow> FileObject list" where
  "rootFiles localeCompare st files =
     take 20
       (sortBy (\<lambda>a b. localeCompare (path a) (path b))
          (filter (\<lambda>f. depth f \<le> 2)
             (filter (\<lambda>f. \<not> alreadySelected st f) files)))"

text \<open>The state after each of the five loops of \<^verbatim>\<open>selectKeyFiles\<close>.\<close>

definition afterPriority1 :: "FileObject list \<Rightarrow> SelectionState" where
  "afterPriority1 files = runPass initialState (priority1 files)"

definition afterPriority2 :: "FileObject list \<Rightarrow> SelectionState" where
  "afterPriority2 files = runPass (afterPriority1 files) (priority2 files)"

definition afterEntryPoints :: "FileObject list \<Rightarrow> SelectionState" where
  "afterEntryPoints files = runPass (afterPriority2 files) (entryPoints files)"

definition afterSourceFiles :: "FileObject list \<Rightarrow> SelectionState" where
  "afterSourceFiles files = sourcePass 0 (afterEntryPoints files) (sourceFiles files)"

definition fallbackPass ::
  "(string \<Rightarrow> string \<Rightarrow> int) \<Rightarrow> FileObject list \<Rightarrow> SelectionState \<Rightarrow> SelectionState" where
  "fallbackPass localeCompare files st =
     (if length (selectedFiles st) < 5 then runPass st (rootFiles localeCompare st files)
      else st)"

definition selectRun :: "(string \<Rightarrow> string \<Rightarrow> int) \<Rightarrow> FileObject list \<Rightarrow> SelectionState" where
  "selectRun localeCompare files = fallbackPass localeCompare files (afterSourceFiles files)"

definition selectKeyFiles :: "(string \<Rightarrow> string \<Rightarrow> int) \<Rightarrow> FileObject list \<Rightarrow> FileObject list" where
  "selectKeyFiles localeCompare files = selectedFiles (selectRun localeCompare files)"

section \<open>The chunker (chunkContent)\<close>

definition MAX_CHUNK_TOKENS :: nat where
  "MAX_CHUNK_TOKENS = 4000"

definition CHARS_PER_TOKEN :: nat where
  "CHARS_PER_TOKEN = 4"

definition maxChunkSize :: nat where
  "maxChunkSize = MAX_CHUNK_TOKENS * CHARS_PER_TOKEN"

text \<open>The template \<^verbatim>\<open>`=== ${file.path} ===\n${file.content}\n\n`\<close>.\<close>

definition fileContent :: "FileObject \<Rightarrow> string" where
  "fileContent file =
     ''=== '' @ path file @ '' ==='' @ [CHR 0x0A] @ FileObject.content file @ [CHR 0x0A, CHR 0x0A]"

text \<open>The variables of the loop of \<^verbatim>\<open>chunkContent\<close>.\<close>

record ChunkerState =
  chunks :: "ContentChunk list"
  currentChunk :: string
  currentFileCount :: nat
  currentSize :: int

definition flushChunk :: "ChunkerState \<Rightarrow> ChunkerState" where
  "flushChunk st =
     \<lparr>chunks = chunks st @ [\<lparr>ContentChunk.content = currentChunk st,
                              fileCount = currentFileCount st,
                              ContentChunk.totalSize = currentSize st\<rparr>],
      currentChunk = [], currentFileCount = 0, currentSize = 0\<rparr>"

text \<open>One iteration of the loop body.\<close>

definition chunkStep :: "ChunkerState \<Rightarrow> FileObject \<Rightarrow> ChunkerState" where
  "chunkStep st file =
     (let st' = (if length (currentChunk st) + length (fileContent file) > maxChunkSize
                    \<and> length (currentChunk st) > 0
                 then flushChunk st else st)
      in st'\<lparr>currentChunk := currentChunk st' @ fileContent file,
             currentFileCount := currentFileCount st' + 1,
             currentSize := currentSize st' + size' file\<rparr>)"

definition chunkContent :: "FileObject list \<Rightarrow> ContentChunk list" where
  "chunkContent files =
     (let st = foldl chunkStep \<lparr>chunks = [], currentChunk = [], currentFileCount = 0,
                                currentSize = 0\<rparr> files
      in if length (currentChunk st) > 0 then chunks (flushChunk st) else chunks st)"


section \<open>Notions used in the statements about the chunker\<close>

text \<open>
  The chunk that the code builds from a group of consecutive files: the rendered blocks
  concatenated in order, the number of files, and the sum of their \<open>size'\<close> fields.
\<close>

definition chunkOf :: "FileObject list \<Rightarrow> ContentChunk" where
  "chunkOf g = \<lparr>ContentChunk.content = concat (map fileContent g), fileCount = length g,
                ContentChunk.totalSize = sum_list (map size' g)\<rparr>"

text \<open>The last statement of \<^verbatim>\<open>chunkContent\<close>: the buffer is flushed when it is not empty.\<close>

definition finishChunks :: "ChunkerState \<Rightarrow> ContentChunk list" where
  "finishChunks st = (if length (currentChunk st) > 0 then chunks (flushChunk st) else chunks st)"

text \<open>
  A group is well formed when it is not empty and, if it holds two files or more, its
  rendered text fits under the ceiling. The loop invariant relates the variables of
  the loop to the groups closed so far and to the group being filled.
\<close>

definition groupOk :: "FileObject list \<Rightarrow> bool" where
  "groupOk g = (g \<noteq> [] \<and> (length g < 2 \<or> length (concat (map fileContent g)) \<le> maxChunkSize))"

definition chunkerInv :: "ChunkerState \<Rightarrow> FileObject list list \<Rightarrow> FileObject list \<Rightarrow> bool" where
  "chunkerInv st gs g = (chunks st = map chunkOf gs \<and> currentChunk st = concat (map fileContent g)
     \<and> currentFileCount st = length g \<and> currentSize st = sum_list (map size' g)
     \<and> list_all groupOk gs \<and> (g = [] \<or> groupOk g))"

text \<open>The same loop state with some chunks already emitted in front.\<close>

definition prependChunks :: "ContentChunk list \<Rightarrow> ChunkerState \<Rightarrow> ChunkerState" where
  "prependChunks cs st = st\<lparr>chunks := cs @ chunks st\<rparr>"

section \<open>Notions used in the statements about the selector\<close>

text \<open>
  The running total agrees with the selection: \<open>totalSize\<close> is the sum of the \<open>size'\<close>
  fields of the records selected so far.
\<close>

definition totalConsistent :: "SelectionState \<Rightarrow> bool" where
  "totalConsistent st = (totalSize st = sum_list (map size' (selectedFiles st)))"

text \<open>
  What one truncated file can add to the running total: the per-file cap plus the
  length of the marker.
\<close>

definition overflowAllowance :: int where
  "overflowAllowance = MAX_FILE_SIZE + int (length truncationMarker)"

text \<open>
  The candidates that a loop hands to \<open>addFile\<close>, in order: \<open>evaluatedPass\<close> follows
  \<open>runPass\<close> and \<open>evaluatedSource\<close> follows \<open>sourcePass\<close>, branch by branch, and
  \<open>evaluated\<close> lists the candidates evaluated by the five loops of a whole run.
\<close>

fun evaluatedPass :: "SelectionState \<Rightarrow> FileObject list \<Rightarrow> FileObject list" where
  "evaluatedPass st [] = []"
| "evaluatedPass st (file # rest) =
     file # (case addFile st file of (ok, st') \<Rightarrow> if ok then evaluatedPass st' rest else [])"

fun evaluatedSource :: "nat \<Rightarrow> SelectionState \<Rightarrow> FileObject list \<Rightarrow> FileObject list" where
  "evaluatedSource sourceFileCount st [] = []"
| "evaluatedSource sourceFileCount st (file # rest) =
     (if sourceFileCount \<ge> 20 then []
      else if alreadySelected st file then evaluatedSource sourceFileCount st rest
      else file # (case addFile st file of
              (ok, st') \<Rightarrow> if ok then evaluatedSource (sourceFileCount + 1) st' rest else []))"

definition evaluated :: "(string \<Rightarrow> string \<Rightarrow> int) \<Rightarrow> FileObject list \<Rightarrow> FileObject list" where
  "evaluated localeCompare files =
     evaluatedPass initialState (priority1 files)
     @ evaluatedPass (afterPriority1 files) (priority2 files)
     @ evaluatedPass (afterPriority2 files) (entryPoints files)
     @ evaluatedSource 0 (afterEntryPoints files) (sourceFiles files)
     @ (if length (selectedFiles (afterSourceFiles files)) < 5
        then evaluatedPass (afterSourceFiles files)
               (rootFiles localeCompare (afterSourceFiles files) files)
        else [])"

text \<open>
  A loop over the candidates \<open>cs\<close> started in state \<open>st\<close> runs to its end when
  \<open>addFile\<close> returns true on every one of them. The candidates of a loop up to and
  including the first occurrence of \<open>b\<close>. Candidates that fit from a state: their sizes
  are between 0 and the per-file cap, and their sum added to the running total is within
  the aggregate cap. The record that \<open>addFile\<close> appends for a candidate it does not
  reject.
\<close>

fun completes :: "SelectionState \<Rightarrow> FileObject list \<Rightarrow> bool" where
  "completes st [] = True"
| "completes st (file # rest) =
     (case addFile st file of (ok, st') \<Rightarrow> ok \<and> completes st' rest)"

definition candidatesUpTo :: "FileObject \<Rightarrow> FileObject list \<Rightarrow> FileObject list" where
  "candidatesUpTo b cs = takeWhile (\<lambda>c. c \<noteq> b) cs @ [b]"

definition fitsFrom :: "SelectionState \<Rightarrow> FileObject list \<Rightarrow> bool" where
  "fitsFrom st cs =
     (list_all (\<lambda>c. 0 \<le> size' c \<and> size' c \<le> MAX_FILE_SIZE) cs
      \<and> totalSize st + sum_list (map size' cs) \<le> MAX_TOTAL_CONTENT)"

definition asAppended :: "FileObject \<Rightarrow> FileObject" where
  "asAppended c = (if MAX_FILE_SIZE < size' c then truncatedFile c else c)"


text \<open>
  A comparator that \<^verbatim>\<open>sort\<close> can rely on: any two elements are comparable, and the
  order is transitive. A list is sorted by a comparator when no element is placed after
  a later one.
\<close>

definition consistentCompare :: "('a \<Rightarrow> 'a \<Rightarrow> int) \<Rightarrow> bool" where
  "consistentCompare cmp =
     ((\<forall>a b. cmp a b \<le> 0 \<or> cmp b a \<le> 0)
      \<and> (\<forall>a b c. cmp a b \<le> 0 \<and> cmp b c \<le> 0 \<longrightarrow> cmp a c \<le> 0))"

definition sortedBy :: "('a \<Rightarrow> 'a \<Rightarrow> int) \<Rightarrow> 'a list \<Rightarrow> bool" where
  "sortedBy cmp xs = sorted_wrt (\<lambda>a b. cmp a b \<le> 0) xs"










section \<open>The chunker: loop invariant\<close>

lemma fileContent_nonempty: "fileContent f \<noteq> []"
  by (simp add: fileContent_def)

lemma chunkStep_inv:
  assumes "chunkerInv st gs g"
  shows "\<exists>gs' g'. chunkerInv (chunkStep st f) gs' g' \<and> g' \<noteq> [] \<and> concat gs' @ g' = concat gs @ g @ [f]"
proof (cases "length (currentChunk st) + length (fileContent f) > maxChunkSize \<and> length (currentChunk st) > 0")
  case True
  then have gne: "g \<noteq> []" using assms by (auto simp: chunkerInv_def)
  have "chunkerInv (chunkStep st f) (gs @ [g]) [f]"
    using assms True gne
    by (simp add: chunkerInv_def chunkStep_def flushChunk_def chunkOf_def groupOk_def)
  then show ?thesis by (intro exI[of _ "gs @ [g]"] exI[of _ "[f]"]) simp
next
  case False
  have "chunkerInv (chunkStep st f) gs (g @ [f])"
  proof (cases "g = []")
    case True
    then show ?thesis using assms False
      by (simp add: chunkerInv_def chunkStep_def groupOk_def)
  next
    case gne: False
    then have "length (currentChunk st) > 0" using assms
      by (cases g) (simp_all add: chunkerInv_def fileContent_nonempty)
    with False have "length (currentChunk st) + length (fileContent f) \<le> maxChunkSize" by simp
    then show ?thesis using assms False
      by (simp add: chunkerInv_def chunkStep_def groupOk_def)
  qed
  then show ?thesis by (intro exI[of _ gs] exI[of _ "g @ [f]"]) simp
qed

lemma foldl_chunkStep_inv:
  "chunkerInv st gs g \<Longrightarrow>
   \<exists>gs' g'. chunkerInv (foldl chunkStep st fs) gs' g' \<and> concat gs' @ g' = concat gs @ g @ fs"
proof (induction fs arbitrary: st gs g)
  case Nil
  then show ?case by auto
next
  case (Cons f fs)
  from chunkStep_inv[OF Cons.prems, of f] obtain gs1 g1 where
    a: "chunkerInv (chunkStep st f) gs1 g1" and b: "concat gs1 @ g1 = concat gs @ g @ [f]"
    by blast
  from Cons.IH[OF a] obtain gs2 g2 where
    c: "chunkerInv (foldl chunkStep (chunkStep st f) fs) gs2 g2"
    and d: "concat gs2 @ g2 = concat gs1 @ g1 @ fs" by blast
  show ?case using c d b by (intro exI[of _ gs2] exI[of _ g2]) simp
qed

lemma chunkContent_finish:
  "chunkContent files = finishChunks (foldl chunkStep \<lparr>chunks = [], currentChunk = [], currentFileCount = 0, currentSize = 0\<rparr> files)"
  by (simp add: chunkContent_def finishChunks_def Let_def)

lemma chunk_partition:
  "\<exists>groups. concat groups = files \<and> list_all groupOk groups \<and> chunkContent files = map chunkOf groups"
proof -
  let ?init = "\<lparr>chunks = [], currentChunk = [], currentFileCount = 0, currentSize = 0\<rparr>"
  have "chunkerInv ?init [] []" by (simp add: chunkerInv_def)
  from foldl_chunkStep_inv[OF this, of files] obtain gs g where
    inv: "chunkerInv (foldl chunkStep ?init files) gs g" and cc: "concat gs @ g = files" by auto
  show ?thesis
  proof (cases "g = []")
    case True
    then have "chunkContent files = map chunkOf gs" using inv
      by (simp add: chunkContent_finish finishChunks_def chunkerInv_def)
    then show ?thesis using inv cc True by (intro exI[of _ gs]) (simp add: chunkerInv_def)
  next
    case False
    then have "length (currentChunk (foldl chunkStep ?init files)) > 0" using inv
      by (cases g) (simp_all add: chunkerInv_def fileContent_nonempty)
    then have "chunkContent files = map chunkOf (gs @ [g])" using inv
      by (simp add: chunkContent_finish finishChunks_def chunkerInv_def flushChunk_def chunkOf_def)
    then show ?thesis using inv cc False by (intro exI[of _ "gs @ [g]"]) (simp add: chunkerInv_def)
  qed
qed

lemma initial_chunkerInv:
  "chunkerInv \<lparr>chunks = [], currentChunk = [], currentFileCount = 0, currentSize = 0\<rparr> [] []"
  by (simp add: chunkerInv_def)

lemma chunkStep_prepend: "chunkStep (prependChunks cs st) f = prependChunks cs (chunkStep st f)"
  by (simp add: chunkStep_def prependChunks_def flushChunk_def Let_def)

lemma foldl_chunkStep_prepend:
  "foldl chunkStep (prependChunks cs st) fs = prependChunks cs (foldl chunkStep st fs)"
  by (induction fs arbitrary: st) (simp_all add: chunkStep_prepend)

lemma finishChunks_prepend: "finishChunks (prependChunks cs st) = cs @ finishChunks st"
  by (simp add: finishChunks_def prependChunks_def flushChunk_def)

lemma chunkStep_oversized:
  assumes inv: "chunkerInv st gs g" and big: "maxChunkSize < length (fileContent f)"
  shows "chunkStep st f = \<lparr>chunks = finishChunks st, currentChunk = fileContent f,
            currentFileCount = 1, currentSize = size' f\<rparr>"
proof (cases "g = []")
  case True
  then show ?thesis using inv
    by (simp add: chunkerInv_def chunkStep_def finishChunks_def)
next
  case False
  then have "length (currentChunk st) > 0" using inv
    by (cases g) (simp_all add: chunkerInv_def fileContent_nonempty)
  then show ?thesis using big
    by (simp add: chunkStep_def finishChunks_def flushChunk_def)
qed

lemma after_oversized:
  assumes big: "maxChunkSize < length cur"
  shows "finishChunks (foldl chunkStep \<lparr>chunks = cs, currentChunk = cur, currentFileCount = n,
             currentSize = sz\<rparr> post)
         = cs @ [\<lparr>ContentChunk.content = cur, fileCount = n, ContentChunk.totalSize = sz\<rparr>]
            @ chunkContent post"
proof (cases post)
  case Nil
  from big have "cur \<noteq> []" by auto
  then show ?thesis using Nil
    by (simp add: finishChunks_def flushChunk_def chunkContent_def)
next
  case (Cons p ps)
  let ?c = "\<lparr>ContentChunk.content = cur, fileCount = n, ContentChunk.totalSize = sz\<rparr>"
  let ?init = "\<lparr>chunks = [], currentChunk = [], currentFileCount = 0, currentSize = 0\<rparr>"
  have "chunkStep \<lparr>chunks = cs, currentChunk = cur, currentFileCount = n, currentSize = sz\<rparr> p
        = prependChunks (cs @ [?c]) (chunkStep ?init p)"
    using big by (auto simp add: chunkStep_def flushChunk_def prependChunks_def)
  then show ?thesis using Cons
    by (simp add: foldl_chunkStep_prepend finishChunks_prepend chunkContent_finish)
qed

section \<open>The chunker: claims\<close>

text \<open>
  C5. For every input sequence, \<open>chunkContent\<close> is an in-order partition: the chunks are
  exactly the chunks of consecutive, non-empty groups of files whose concatenation is the
  input (so each file is folded into exactly one chunk, in input order); each chunk holds
  the number of its files and the sum of their original \<open>size'\<close> values (not the rendered
  length); no chunk is empty; the \<open>fileCount\<close> fields sum to the length of the input; and
  the empty input gives no chunk at all.
\<close>

theorem chunkContent_partition:
  "(\<exists>groups. concat groups = files \<and> [] \<notin> set groups
       \<and> chunkContent files = map chunkOf groups)
   \<and> list_all (\<lambda>c. 0 < fileCount c) (chunkContent files)
   \<and> sum_list (map fileCount (chunkContent files)) = length files
   \<and> chunkContent [] = []"
proof -
  obtain groups where g: "concat groups = files" "list_all groupOk groups"
      "chunkContent files = map chunkOf groups"
    using chunk_partition[of files] by blast
  have ne: "[] \<notin> set groups" using g(2) by (auto simp: list_all_iff groupOk_def)
  have "fileCount \<circ> chunkOf = length"
    by (rule ext) (simp add: chunkOf_def)
  then have "sum_list (map fileCount (chunkContent files)) = length (concat groups)"
    using g(3) by (simp add: length_concat)
  moreover have "chunkContent [] = []" by (simp add: chunkContent_def)
  moreover have "list_all (\<lambda>c. 0 < fileCount c) (chunkContent files)"
    using g(2) unfolding g(3) by (auto simp: list_all_iff groupOk_def chunkOf_def)
  ultimately show ?thesis using g ne by blast
qed

text \<open>
  C8. A file whose rendered block alone is longer than the chunk ceiling is never split:
  wherever it stands in the input, it is the only file of one chunk, whose content is its
  rendered block (longer than the ceiling), and the files before it and after it are
  chunked exactly as they would be on their own.
\<close>

theorem oversized_file_sole_chunk:
  assumes "maxChunkSize < length (fileContent f)"
  shows "chunkContent (pre @ f # post)
         = chunkContent pre
           @ [\<lparr>ContentChunk.content = fileContent f, fileCount = 1,
                ContentChunk.totalSize = size' f\<rparr>]
           @ chunkContent post"
proof -
  let ?init = "\<lparr>chunks = [], currentChunk = [], currentFileCount = 0, currentSize = 0\<rparr>"
  obtain gs g where inv: "chunkerInv (foldl chunkStep ?init pre) gs g"
    using foldl_chunkStep_inv[OF initial_chunkerInv, of pre] by blast
  have "chunkContent (pre @ f # post)
        = finishChunks (foldl chunkStep (chunkStep (foldl chunkStep ?init pre) f) post)"
    by (simp add: chunkContent_finish)
  also have "\<dots> = finishChunks (foldl chunkStep \<lparr>chunks = chunkContent pre,
        currentChunk = fileContent f, currentFileCount = 1, currentSize = size' f\<rparr> post)"
    by (simp add: chunkStep_oversized[OF inv assms] chunkContent_finish)
  also have "\<dots> = chunkContent pre @ [\<lparr>ContentChunk.content = fileContent f, fileCount = 1,
                ContentChunk.totalSize = size' f\<rparr>] @ chunkContent post"
    by (rule after_oversized[OF assms])
  finally show ?thesis .
qed

theorem oversized_file_sole_chunk_witness:
  "maxChunkSize < length (fileContent \<lparr>path = ''big.js'', content = replicate 16000 CHR ''x'',
       size' = 16000, type' = File\<rparr>)
   \<and> chunkContent
       ([\<lparr>path = ''a.js'', content = ''a'', size' = 1, type' = File\<rparr>]
        @ \<lparr>path = ''big.js'', content = replicate 16000 CHR ''x'', size' = 16000, type' = File\<rparr>
        # [\<lparr>path = ''b.js'', content = ''b'', size' = 1, type' = File\<rparr>])
     = [\<lparr>ContentChunk.content = ''=== a.js ==='' @ [CHR 0x0A] @ ''a'' @ [CHR 0x0A, CHR 0x0A],
          fileCount = 1, ContentChunk.totalSize = 1\<rparr>,
        \<lparr>ContentChunk.content = ''=== big.js ==='' @ [CHR 0x0A] @ replicate 16000 CHR ''x''
             @ [CHR 0x0A, CHR 0x0A],
          fileCount = 1, ContentChunk.totalSize = 16000\<rparr>,
        \<lparr>ContentChunk.content = ''=== b.js ==='' @ [CHR 0x0A] @ ''b'' @ [CHR 0x0A, CHR 0x0A],
          fileCount = 1, ContentChunk.totalSize = 1\<rparr>]"
proof -
  let ?big = "\<lparr>path = ''big.js'', content = replicate 16000 CHR ''x'', size' = 16000, type' = File\<rparr>"
  have big: "maxChunkSize < length (fileContent ?big)"
    by (simp add: fileContent_def maxChunkSize_def MAX_CHUNK_TOKENS_def CHARS_PER_TOKEN_def)
  have single: "\<And>f. chunkContent [f] = [\<lparr>ContentChunk.content = fileContent f, fileCount = 1,
       ContentChunk.totalSize = size' f\<rparr>]"
    by (simp add: chunkContent_def chunkStep_def flushChunk_def fileContent_def)
  show ?thesis
    using big oversized_file_sole_chunk[OF big,
        of "[\<lparr>path = ''a.js'', content = ''a'', size' = 1, type' = File\<rparr>]"
           "[\<lparr>path = ''b.js'', content = ''b'', size' = 1, type' = File\<rparr>]"]
    by (simp add: single fileContent_def)
qed

text \<open>
  C10. Every chunk of \<open>chunkContent\<close> that holds two files or more has a content of at
  most 16000 characters (\<open>MAX_CHUNK_TOKENS\<close> times \<open>CHARS_PER_TOKEN\<close>).
\<close>

theorem multi_file_chunk_within_ceiling:
  "MAX_CHUNK_TOKENS * CHARS_PER_TOKEN = 16000
   \<and> (\<forall>c \<in> set (chunkContent files).
         2 \<le> fileCount c \<longrightarrow> length (ContentChunk.content c) \<le> MAX_CHUNK_TOKENS * CHARS_PER_TOKEN)"
proof -
  obtain groups where g: "list_all groupOk groups" "chunkContent files = map chunkOf groups"
    using chunk_partition[of files] by blast
  have "\<forall>c \<in> set (map chunkOf groups). 2 \<le> fileCount c \<longrightarrow> length (ContentChunk.content c) \<le> maxChunkSize"
    using g(1) by (auto simp: list_all_iff groupOk_def chunkOf_def)
  then show ?thesis using g(2) by (simp add: maxChunkSize_def MAX_CHUNK_TOKENS_def CHARS_PER_TOKEN_def)
qed

theorem multi_file_chunk_within_ceiling_witness:
  "chunkContent [\<lparr>path = ''a.js'', content = ''a'', size' = 1, type' = File\<rparr>,
                 \<lparr>path = ''b.js'', content = ''b'', size' = 1, type' = File\<rparr>]
     = [\<lparr>ContentChunk.content = ''=== a.js ==='' @ [CHR 0x0A] @ ''a'' @ [CHR 0x0A, CHR 0x0A]
            @ ''=== b.js ==='' @ [CHR 0x0A] @ ''b'' @ [CHR 0x0A, CHR 0x0A],
          fileCount = 2, ContentChunk.totalSize = 2\<rparr>]
   \<and> length (''=== a.js ==='' @ [CHR 0x0A] @ ''a'' @ [CHR 0x0A, CHR 0x0A]
            @ ''=== b.js ==='' @ [CHR 0x0A] @ ''b'' @ [CHR 0x0A, CHR 0x0A])
       \<le> MAX_CHUNK_TOKENS * CHARS_PER_TOKEN"
proof -
  let ?fs = "[\<lparr>path = ''a.js'', content = ''a'', size' = 1, type' = File\<rparr>,
              \<lparr>path = ''b.js'', content = ''b'', size' = 1, type' = File\<rparr>]"
  let ?c = "\<lparr>ContentChunk.content = ''=== a.js ==='' @ [CHR 0x0A] @ ''a'' @ [CHR 0x0A, CHR 0x0A]
            @ ''=== b.js ==='' @ [CHR 0x0A] @ ''b'' @ [CHR 0x0A, CHR 0x0A],
          fileCount = 2, ContentChunk.totalSize = 2\<rparr>"
  have e: "chunkContent ?fs = [?c]"
    by (simp add: chunkContent_def chunkStep_def flushChunk_def fileContent_def maxChunkSize_def
        MAX_CHUNK_TOKENS_def CHARS_PER_TOKEN_def)
  have "\<forall>c \<in> set (chunkContent ?fs).
         2 \<le> fileCount c \<longrightarrow> length (ContentChunk.content c) \<le> MAX_CHUNK_TOKENS * CHARS_PER_TOKEN"
    using multi_file_chunk_within_ceiling[of ?fs] by (rule conjunct2)
  then have "2 \<le> fileCount ?c \<longrightarrow> length (ContentChunk.content ?c) \<le> MAX_CHUNK_TOKENS * CHARS_PER_TOKEN"
    unfolding e by simp
  then have "length (ContentChunk.content ?c) \<le> MAX_CHUNK_TOKENS * CHARS_PER_TOKEN" by simp
  with e show ?thesis by simp
qed

section \<open>The selector: the helper \<open>addFile\<close> and the loops\<close>



lemma addFile_oversized:
  "MAX_FILE_SIZE < size' f \<Longrightarrow>
   addFile st f =
     (totalSize st + int (length (truncatedContent f)) < MAX_TOTAL_CONTENT,
      \<lparr>selectedFiles = selectedFiles st @ [truncatedFile f],
       totalSize = totalSize st + int (length (truncatedContent f))\<rparr>)"
  by (simp add: addFile_def Let_def)

lemma addFile_rejected:
  "size' f \<le> MAX_FILE_SIZE \<Longrightarrow> MAX_TOTAL_CONTENT < totalSize st + size' f \<Longrightarrow>
   addFile st f = (False, st)"
  by (simp add: addFile_def)

lemma addFile_accepted:
  "size' f \<le> MAX_FILE_SIZE \<Longrightarrow> totalSize st + size' f \<le> MAX_TOTAL_CONTENT \<Longrightarrow>
   addFile st f = (True, \<lparr>selectedFiles = selectedFiles st @ [f],
                          totalSize = totalSize st + size' f\<rparr>)"
  by (simp add: addFile_def)

lemma addFile_extends: "\<exists>ys. selectedFiles (snd (addFile st f)) = selectedFiles st @ ys"
  by (simp add: addFile_def Let_def)

lemma runPass_extends: "\<exists>ys. selectedFiles (runPass st cs) = selectedFiles st @ ys"
proof (induction cs arbitrary: st)
  case Nil
  then show ?case by simp
next
  case (Cons c cs)
  obtain ok st' where a: "addFile st c = (ok, st')" by (cases "addFile st c")
  obtain ys where ys: "selectedFiles st' = selectedFiles st @ ys"
    using addFile_extends[of st c] a by auto
  show ?case
  proof (cases ok)
    case True
    obtain zs where "selectedFiles (runPass st' cs) = selectedFiles st' @ zs"
      using Cons.IH[of st'] by blast
    then show ?thesis using a True ys by simp
  next
    case False
    then show ?thesis using a ys by simp
  qed
qed

lemma sourcePass_extends: "\<exists>ys. selectedFiles (sourcePass n st cs) = selectedFiles st @ ys"
proof (induction cs arbitrary: n st)
  case Nil
  then show ?case by simp
next
  case (Cons c cs)
  show ?case
  proof (cases "20 \<le> n \<or> alreadySelected st c")
    case True
    then show ?thesis using Cons.IH[of n st] by auto
  next
    case False
    obtain ok st' where a: "addFile st c = (ok, st')" by (cases "addFile st c")
    obtain ys where ys: "selectedFiles st' = selectedFiles st @ ys"
      using addFile_extends[of st c] a by auto
    show ?thesis
    proof (cases ok)
      case True
      obtain zs where "selectedFiles (sourcePass (n + 1) st' cs) = selectedFiles st' @ zs"
        using Cons.IH[of "n + 1" st'] by blast
      then show ?thesis using a True ys False by simp
    next
      case ok: False
      then show ?thesis using a ys False by simp
    qed
  qed
qed

lemma fallbackPass_extends:
  "\<exists>ys. selectedFiles (fallbackPass lc files st) = selectedFiles st @ ys"
  using runPass_extends[of st "rootFiles lc st files"] by (simp add: fallbackPass_def)

lemma later_passes_extend:
  "(\<exists>ys. selectedFiles (afterPriority2 files) = selectedFiles (afterPriority1 files) @ ys)
   \<and> (\<exists>ys. selectedFiles (afterEntryPoints files) = selectedFiles (afterPriority2 files) @ ys)
   \<and> (\<exists>ys. selectedFiles (afterSourceFiles files) = selectedFiles (afterEntryPoints files) @ ys)
   \<and> (\<exists>ys. selectKeyFiles lc files = selectedFiles (afterSourceFiles files) @ ys)"
  unfolding afterPriority2_def afterEntryPoints_def afterSourceFiles_def selectKeyFiles_def
    selectRun_def
  using runPass_extends sourcePass_extends fallbackPass_extends by blast

text \<open>Unfolding the whole selector, to evaluate it on concrete inputs.\<close>

lemmas selector_defs =
  selectKeyFiles_def selectRun_def fallbackPass_def afterSourceFiles_def afterEntryPoints_def
  afterPriority2_def afterPriority1_def rootFiles_def sourceFiles_def entryPoints_def
  priority1_def priority2_def fileName_def depth_def alreadySelected_def sortBy_def
  depthCompare_def sourceCompare_def dirIndex_def
  PRIORITY_1_FILES_def PRIORITY_2_PATTERNS_def ENTRY_POINT_PATTERNS_def PRIORITY_DIRECTORIES_def
  initialState_def addFile_def truncatedFile_def truncatedContent_def truncationMarker_def
  MAX_FILE_SIZE_def MAX_TOTAL_CONTENT_def Let_def

subsection \<open>The running total\<close>

lemma addFile_consistent: "totalConsistent st \<Longrightarrow> totalConsistent (snd (addFile st f))"
  by (simp add: totalConsistent_def addFile_def truncatedFile_def Let_def)

lemma runPass_consistent: "totalConsistent st \<Longrightarrow> totalConsistent (runPass st cs)"
proof (induction cs arbitrary: st)
  case Nil
  then show ?case by simp
next
  case (Cons c cs)
  have "totalConsistent (snd (addFile st c))" using Cons.prems by (rule addFile_consistent)
  then show ?case using Cons.IH[of "snd (addFile st c)"]
    by (cases "addFile st c") auto
qed

lemma sourcePass_consistent: "totalConsistent st \<Longrightarrow> totalConsistent (sourcePass n st cs)"
proof (induction cs arbitrary: n st)
  case Nil
  then show ?case by simp
next
  case (Cons c cs)
  have "totalConsistent (snd (addFile st c))" using Cons.prems by (rule addFile_consistent)
  then show ?case using Cons.IH[of "snd (addFile st c)" "n + 1"] Cons.IH[of st n] Cons.prems
    by (cases "addFile st c") auto
qed

lemma initialState_consistent: "totalConsistent initialState"
  by (simp add: totalConsistent_def initialState_def)

lemma afterPriority1_consistent: "totalConsistent (afterPriority1 files)"
  unfolding afterPriority1_def by (rule runPass_consistent[OF initialState_consistent])

lemma afterPriority2_consistent: "totalConsistent (afterPriority2 files)"
  unfolding afterPriority2_def by (rule runPass_consistent[OF afterPriority1_consistent])

lemma afterEntryPoints_consistent: "totalConsistent (afterEntryPoints files)"
  unfolding afterEntryPoints_def by (rule runPass_consistent[OF afterPriority2_consistent])

lemma afterSourceFiles_consistent: "totalConsistent (afterSourceFiles files)"
  unfolding afterSourceFiles_def by (rule sourcePass_consistent[OF afterEntryPoints_consistent])

lemma selectRun_consistent: "totalConsistent (selectRun lc files)"
  unfolding selectRun_def fallbackPass_def
  using afterSourceFiles_consistent[of files] runPass_consistent by auto

lemma truncatedContent_le: "int (length (truncatedContent f)) \<le> overflowAllowance"
  by (simp add: overflowAllowance_def truncatedContent_def MAX_FILE_SIZE_def)

lemma addFile_total_bound:
  assumes "MAX_TOTAL_CONTENT \<le> B" "totalSize st \<le> B"
  shows "totalSize (snd (addFile st f)) \<le> B + overflowAllowance
         \<and> (fst (addFile st f) \<longrightarrow> totalSize (snd (addFile st f)) \<le> B)"
proof -
  have "0 \<le> overflowAllowance"
    by (simp add: overflowAllowance_def MAX_FILE_SIZE_def)
  then show ?thesis
    using assms truncatedContent_le[of f] by (auto simp: addFile_def Let_def)
qed

lemma runPass_total_bound:
  "MAX_TOTAL_CONTENT \<le> B \<Longrightarrow> totalSize st \<le> B \<Longrightarrow>
   totalSize (runPass st cs) \<le> B + overflowAllowance"
proof (induction cs arbitrary: st)
  case Nil
  have "0 \<le> overflowAllowance" by (simp add: overflowAllowance_def MAX_FILE_SIZE_def)
  then show ?case using Nil by simp
next
  case (Cons c cs)
  note b = addFile_total_bound[OF Cons.prems, of c]
  show ?case
  proof (cases "fst (addFile st c)")
    case True
    then have "totalSize (snd (addFile st c)) \<le> B" using b by simp
    from Cons.IH[OF Cons.prems(1) this] True show ?thesis
      by (cases "addFile st c") simp
  next
    case False
    then show ?thesis using b by (cases "addFile st c") simp
  qed
qed

lemma sourcePass_total_bound:
  "MAX_TOTAL_CONTENT \<le> B \<Longrightarrow> totalSize st \<le> B \<Longrightarrow>
   totalSize (sourcePass n st cs) \<le> B + overflowAllowance"
proof (induction cs arbitrary: n st)
  case Nil
  have "0 \<le> overflowAllowance" by (simp add: overflowAllowance_def MAX_FILE_SIZE_def)
  then show ?case using Nil by simp
next
  case (Cons c cs)
  have nn: "0 \<le> overflowAllowance" by (simp add: overflowAllowance_def MAX_FILE_SIZE_def)
  note b = addFile_total_bound[OF Cons.prems, of c]
  show ?case
  proof (cases "20 \<le> n \<or> alreadySelected st c")
    case True
    then show ?thesis using Cons.IH[OF Cons.prems, of n] Cons.prems nn by auto
  next
    case skip: False
    show ?thesis
    proof (cases "fst (addFile st c)")
      case True
      then have "totalSize (snd (addFile st c)) \<le> B" using b by simp
      from Cons.IH[OF Cons.prems(1) this, of "n + 1"] True skip show ?thesis
        by (cases "addFile st c") simp
    next
      case False
      then show ?thesis using b skip by (cases "addFile st c") simp
    qed
  qed
qed

lemma selectRun_total_bound:
  "totalSize (selectRun lc files) \<le> MAX_TOTAL_CONTENT + 5 * overflowAllowance"
proof -
  have nn: "0 \<le> overflowAllowance" by (simp add: overflowAllowance_def MAX_FILE_SIZE_def)
  have 0: "totalSize initialState \<le> MAX_TOTAL_CONTENT"
    by (simp add: initialState_def MAX_TOTAL_CONTENT_def)
  have 1: "totalSize (afterPriority1 files) \<le> MAX_TOTAL_CONTENT + overflowAllowance"
    unfolding afterPriority1_def using runPass_total_bound[OF _ 0] by simp
  have 2: "totalSize (afterPriority2 files) \<le> MAX_TOTAL_CONTENT + overflowAllowance + overflowAllowance"
    unfolding afterPriority2_def using runPass_total_bound[OF _ 1] nn by simp
  have 3: "totalSize (afterEntryPoints files)
           \<le> MAX_TOTAL_CONTENT + overflowAllowance + overflowAllowance + overflowAllowance"
    unfolding afterEntryPoints_def using runPass_total_bound[OF _ 2] nn by simp
  have 4: "totalSize (afterSourceFiles files)
           \<le> MAX_TOTAL_CONTENT + overflowAllowance + overflowAllowance + overflowAllowance
              + overflowAllowance"
    unfolding afterSourceFiles_def using sourcePass_total_bound[OF _ 3] nn by simp
  have "totalSize (selectRun lc files)
           \<le> MAX_TOTAL_CONTENT + overflowAllowance + overflowAllowance + overflowAllowance
              + overflowAllowance + overflowAllowance"
    unfolding selectRun_def fallbackPass_def
    using runPass_total_bound[OF _ 4, of "rootFiles lc (afterSourceFiles files) files"] 4 nn
    by simp
  then show ?thesis by simp
qed

section \<open>The selector: claims about the budget\<close>

text \<open>
  C1, as stated: the first rejection for the aggregate cap ends the whole selection run.
  This fails: each loop has its own \<^verbatim>\<open>break\<close>, so a rejection ends only the loop it
  occurs in. Below, the documentation loop rejects \<^verbatim>\<open>README.md\<close> (60000 bytes), and the
  configuration loop then appends \<^verbatim>\<open>package.json\<close>.
\<close>

theorem rejection_counterexample:
  "addFile initialState
     \<lparr>path = ''README.md'', content = replicate 60000 CHR ''x'', size' = 60000, type' = File\<rparr>
   = (False, initialState)
   \<and> (\<forall>localeCompare.
        selectKeyFiles localeCompare
          [\<lparr>path = ''README.md'', content = replicate 60000 CHR ''x'', size' = 60000, type' = File\<rparr>,
           \<lparr>path = ''package.json'', content = ''{}'', size' = 2, type' = File\<rparr>]
        = [\<lparr>path = ''package.json'', content = ''{}'', size' = 2, type' = File\<rparr>])"
  by (simp add: selector_defs)

text \<open>
  C1, amended. When \<open>addFile\<close> rejects a candidate because appending it would exceed the
  aggregate cap, the state is unchanged and the loop in which the rejection occurred
  appends nothing more, whatever candidates remain in it (the three plain loops and the
  fallback loop are \<open>runPass\<close>, the source-directory loop is \<open>sourcePass\<close>). The later
  loops still run, from that unchanged state.
\<close>

theorem rejection_ends_the_pass:
  assumes "size' f \<le> MAX_FILE_SIZE" and "MAX_TOTAL_CONTENT < totalSize st + size' f"
  shows "addFile st f = (False, st)
         \<and> runPass st (f # rest) = st
         \<and> (\<not> alreadySelected st f \<longrightarrow> sourcePass n st (f # rest) = st)"
  using assms by (simp add: addFile_rejected)

theorem rejection_ends_the_pass_witness:
  "size' \<lparr>path = ''README.md'', content = replicate 60000 CHR ''x'', size' = 60000, type' = File\<rparr>
     \<le> MAX_FILE_SIZE
   \<and> MAX_TOTAL_CONTENT < totalSize initialState
       + size' \<lparr>path = ''README.md'', content = replicate 60000 CHR ''x'', size' = 60000, type' = File\<rparr>
   \<and> runPass initialState
       [\<lparr>path = ''README.md'', content = replicate 60000 CHR ''x'', size' = 60000, type' = File\<rparr>,
        \<lparr>path = ''LICENSE'', content = ''MIT'', size' = 3, type' = File\<rparr>]
     = initialState
   \<and> sourcePass 0 initialState
       [\<lparr>path = ''README.md'', content = replicate 60000 CHR ''x'', size' = 60000, type' = File\<rparr>,
        \<lparr>path = ''LICENSE'', content = ''MIT'', size' = 3, type' = File\<rparr>]
     = initialState"
proof -
  let ?f = "\<lparr>path = ''README.md'', content = replicate 60000 CHR ''x'', size' = 60000, type' = File\<rparr>"
  have h1: "size' ?f \<le> MAX_FILE_SIZE" by (simp add: MAX_FILE_SIZE_def)
  have h2: "MAX_TOTAL_CONTENT < totalSize initialState + size' ?f"
    by (simp add: MAX_TOTAL_CONTENT_def initialState_def)
  have h3: "\<not> alreadySelected initialState ?f"
    by (simp add: alreadySelected_def initialState_def)
  show ?thesis
    using h1 h2 h3
      rejection_ends_the_pass[OF h1 h2,
        of "[\<lparr>path = ''LICENSE'', content = ''MIT'', size' = 3, type' = File\<rparr>]" 0]
    by blast
qed

text \<open>
  C2, as stated: the output's total size exceeds the aggregate cap by at most the overflow
  of one truncated file. This fails: a truncated file is appended whatever the running
  total is, and each loop can do so once after the cap is reached. Below, two loops append
  one truncated file each, for a total of 204832, above 51200 + 102416.
\<close>

theorem two_overflows_counterexample:
  "\<forall>localeCompare.
     selectKeyFiles localeCompare
       [\<lparr>path = ''README.md'', content = replicate 150000 CHR ''x'', size' = 150000, type' = File\<rparr>,
        \<lparr>path = ''package.json'', content = replicate 150000 CHR ''y'', size' = 150000, type' = File\<rparr>]
     = [\<lparr>path = ''README.md'', content = replicate 102400 CHR ''x'' @ CHR 0x0A # ''... (truncated)'',
          size' = 102416, type' = File\<rparr>,
        \<lparr>path = ''package.json'', content = replicate 102400 CHR ''y'' @ CHR 0x0A # ''... (truncated)'',
          size' = 102416, type' = File\<rparr>]"
  by (simp add: selector_defs)

text \<open>
  C2, amended. The running total equals the sum of \<open>size'\<close> over the records selected so
  far at every point: initially, after every call of \<open>addFile\<close>, after each loop and at the
  end. A loop that starts with a total of at most \<open>B\<close>, where \<open>B\<close> is at least the aggregate
  cap, ends with a total of at most \<open>B\<close> plus one truncated file (the per-file cap plus the
  marker's length); so the sum of \<open>size'\<close> over the output of the five loops is at most the
  aggregate cap plus five times that amount.
\<close>

theorem running_total_consistent_and_bounded:
  "(totalConsistent st \<longrightarrow> totalConsistent (snd (addFile st f)))
   \<and> (MAX_TOTAL_CONTENT \<le> B \<and> totalSize st \<le> B \<longrightarrow>
        totalSize (runPass st cs) \<le> B + (MAX_FILE_SIZE + int (length truncationMarker))
        \<and> totalSize (sourcePass n st cs)
            \<le> B + (MAX_FILE_SIZE + int (length truncationMarker)))
   \<and> totalConsistent initialState
   \<and> totalConsistent (afterPriority1 files)
   \<and> totalConsistent (afterPriority2 files)
   \<and> totalConsistent (afterEntryPoints files)
   \<and> totalConsistent (afterSourceFiles files)
   \<and> totalConsistent (selectRun localeCompare files)
   \<and> sum_list (map size' (selectKeyFiles localeCompare files))
       \<le> MAX_TOTAL_CONTENT + 5 * (MAX_FILE_SIZE + int (length truncationMarker))"
proof -
  have "sum_list (map size' (selectKeyFiles localeCompare files))
        = totalSize (selectRun localeCompare files)"
    using selectRun_consistent[of localeCompare files]
    by (simp add: totalConsistent_def selectKeyFiles_def)
  then have "sum_list (map size' (selectKeyFiles localeCompare files))
       \<le> MAX_TOTAL_CONTENT + 5 * (MAX_FILE_SIZE + int (length truncationMarker))"
    using selectRun_total_bound[of localeCompare files] by (simp add: overflowAllowance_def)
  moreover have "MAX_TOTAL_CONTENT \<le> B \<and> totalSize st \<le> B \<longrightarrow>
        totalSize (runPass st cs) \<le> B + (MAX_FILE_SIZE + int (length truncationMarker))
        \<and> totalSize (sourcePass n st cs)
            \<le> B + (MAX_FILE_SIZE + int (length truncationMarker))"
    using runPass_total_bound[of B st cs] sourcePass_total_bound[of B st n cs]
    by (simp add: overflowAllowance_def)
  ultimately show ?thesis
    using addFile_consistent initialState_consistent afterPriority1_consistent
      afterPriority2_consistent afterEntryPoints_consistent afterSourceFiles_consistent
      selectRun_consistent by blast
qed

theorem running_total_consistent_and_bounded_witness:
  "totalConsistent initialState
   \<and> totalConsistent (snd (addFile initialState
        \<lparr>path = ''LICENSE'', content = ''MIT'', size' = 3, type' = File\<rparr>))
   \<and> (\<forall>localeCompare.
        sum_list (map size' (selectKeyFiles localeCompare
          [\<lparr>path = ''README.md'', content = replicate 150000 CHR ''x'', size' = 150000, type' = File\<rparr>,
           \<lparr>path = ''package.json'', content = replicate 150000 CHR ''y'', size' = 150000,
             type' = File\<rparr>]))
        \<le> MAX_TOTAL_CONTENT + 5 * (MAX_FILE_SIZE + int (length truncationMarker)))"
proof -
  let ?f = "\<lparr>path = ''LICENSE'', content = ''MIT'', size' = 3, type' = File\<rparr>"
  let ?fs = "[\<lparr>path = ''README.md'', content = replicate 150000 CHR ''x'', size' = 150000, type' = File\<rparr>,
           \<lparr>path = ''package.json'', content = replicate 150000 CHR ''y'', size' = 150000,
             type' = File\<rparr>]"
  have "\<And>lc. (totalConsistent initialState \<longrightarrow> totalConsistent (snd (addFile initialState ?f)))
      \<and> totalConsistent initialState
      \<and> sum_list (map size' (selectKeyFiles lc ?fs))
        \<le> MAX_TOTAL_CONTENT + 5 * (MAX_FILE_SIZE + int (length truncationMarker))"
    using running_total_consistent_and_bounded[where st = initialState and f = ?f and files = ?fs]
    by blast
  then show ?thesis by blast
qed




subsection \<open>Evaluated candidates\<close>

lemma runPass_keeps_truncated:
  "f \<in> set (evaluatedPass st cs) \<Longrightarrow> MAX_FILE_SIZE < size' f \<Longrightarrow>
   truncatedFile f \<in> set (selectedFiles (runPass st cs))"
proof (induction cs arbitrary: st)
  case Nil
  then show ?case by simp
next
  case (Cons c cs)
  obtain ok st' where a: "addFile st c = (ok, st')" by (cases "addFile st c")
  show ?case
  proof (cases "f = c")
    case True
    have "selectedFiles st' = selectedFiles st @ [truncatedFile f]"
      using a Cons.prems(2) True by (auto simp: addFile_oversized)
    moreover obtain ys where "selectedFiles (runPass st' cs) = selectedFiles st' @ ys"
      using runPass_extends by blast
    ultimately show ?thesis using a by (cases ok) simp_all
  next
    case False
    then have "ok" and "f \<in> set (evaluatedPass st' cs)"
      using Cons.prems(1) a by (auto split: if_splits)
    then show ?thesis using Cons.IH[of st'] Cons.prems(2) a by simp
  qed
qed

lemma sourcePass_keeps_truncated:
  "f \<in> set (evaluatedSource n st cs) \<Longrightarrow> MAX_FILE_SIZE < size' f \<Longrightarrow>
   truncatedFile f \<in> set (selectedFiles (sourcePass n st cs))"
proof (induction cs arbitrary: n st)
  case Nil
  then show ?case by simp
next
  case (Cons c cs)
  have n: "\<not> 20 \<le> n" using Cons.prems(1) by (auto split: if_splits)
  show ?case
  proof (cases "alreadySelected st c")
    case True
    then show ?thesis using Cons.IH[of n st] Cons.prems n by simp
  next
    case new: False
    obtain ok st' where a: "addFile st c = (ok, st')" by (cases "addFile st c")
    show ?thesis
    proof (cases "f = c")
      case True
      have "selectedFiles st' = selectedFiles st @ [truncatedFile f]"
        using a Cons.prems(2) True by (auto simp: addFile_oversized)
      moreover obtain ys where "selectedFiles (sourcePass (n + 1) st' cs) = selectedFiles st' @ ys"
        using sourcePass_extends by blast
      ultimately show ?thesis using a n new by (cases ok) simp_all
    next
      case False
      then have "ok" and "f \<in> set (evaluatedSource (n + 1) st' cs)"
        using Cons.prems(1) a n new by (auto split: if_splits)
      then show ?thesis using Cons.IH[of "n + 1" st'] Cons.prems(2) a n new by simp
    qed
  qed
qed

lemma addFile_origin:
  "set (selectedFiles (snd (addFile st c)))
   \<subseteq> set (selectedFiles st) \<union> {c, truncatedFile c}"
  by (auto simp: addFile_def Let_def)

lemma runPass_origin:
  "set (selectedFiles (runPass st cs))
   \<subseteq> set (selectedFiles st) \<union> set (evaluatedPass st cs) \<union> truncatedFile ` set (evaluatedPass st cs)"
proof (induction cs arbitrary: st)
  case Nil
  then show ?case by simp
next
  case (Cons c cs)
  obtain ok st' where a: "addFile st c = (ok, st')" by (cases "addFile st c")
  have s: "set (selectedFiles st') \<subseteq> set (selectedFiles st) \<union> {c, truncatedFile c}"
    using addFile_origin[of st c] a by simp
  show ?case
  proof (cases ok)
    case True
    then show ?thesis using a s Cons.IH[of st'] by auto
  next
    case False
    then show ?thesis using a s by auto
  qed
qed

lemma sourcePass_origin:
  "set (selectedFiles (sourcePass n st cs))
   \<subseteq> set (selectedFiles st) \<union> set (evaluatedSource n st cs)
      \<union> truncatedFile ` set (evaluatedSource n st cs)"
proof (induction cs arbitrary: n st)
  case Nil
  then show ?case by simp
next
  case (Cons c cs)
  show ?case
  proof (cases "20 \<le> n \<or> alreadySelected st c")
    case True
    then show ?thesis using Cons.IH[of n st] by auto
  next
    case False
    obtain ok st' where a: "addFile st c = (ok, st')" by (cases "addFile st c")
    have s: "set (selectedFiles st') \<subseteq> set (selectedFiles st) \<union> {c, truncatedFile c}"
      using addFile_origin[of st c] a by simp
    show ?thesis
    proof (cases ok)
      case True
      then show ?thesis using a s False Cons.IH[of "n + 1" st'] by auto
    next
      case ok: False
      then show ?thesis using a s False by auto
    qed
  qed
qed

lemma kept_until_output:
  "set (selectedFiles (afterPriority1 files)) \<subseteq> set (selectKeyFiles lc files)"
  "set (selectedFiles (afterPriority2 files)) \<subseteq> set (selectKeyFiles lc files)"
  "set (selectedFiles (afterEntryPoints files)) \<subseteq> set (selectKeyFiles lc files)"
  "set (selectedFiles (afterSourceFiles files)) \<subseteq> set (selectKeyFiles lc files)"
proof -
  obtain y2 y3 y4 y5 where
    2: "selectedFiles (afterPriority2 files) = selectedFiles (afterPriority1 files) @ y2"
    and 3: "selectedFiles (afterEntryPoints files) = selectedFiles (afterPriority2 files) @ y3"
    and 4: "selectedFiles (afterSourceFiles files) = selectedFiles (afterEntryPoints files) @ y4"
    and 5: "selectKeyFiles lc files = selectedFiles (afterSourceFiles files) @ y5"
    using later_passes_extend[of files lc] by blast
  show "set (selectedFiles (afterSourceFiles files)) \<subseteq> set (selectKeyFiles lc files)"
    unfolding 5 by simp
  then show "set (selectedFiles (afterEntryPoints files)) \<subseteq> set (selectKeyFiles lc files)"
    unfolding 4 by simp
  then show "set (selectedFiles (afterPriority2 files)) \<subseteq> set (selectKeyFiles lc files)"
    unfolding 3 by simp
  then show "set (selectedFiles (afterPriority1 files)) \<subseteq> set (selectKeyFiles lc files)"
    unfolding 2 by simp
qed

lemma evaluated_oversized_in_output:
  assumes big: "MAX_FILE_SIZE < size' f" and ev: "f \<in> set (evaluated lc files)"
  shows "truncatedFile f \<in> set (selectKeyFiles lc files)"
proof -
  let ?st4 = "afterSourceFiles files"
  consider (1) "f \<in> set (evaluatedPass initialState (priority1 files))"
    | (2) "f \<in> set (evaluatedPass (afterPriority1 files) (priority2 files))"
    | (3) "f \<in> set (evaluatedPass (afterPriority2 files) (entryPoints files))"
    | (4) "f \<in> set (evaluatedSource 0 (afterEntryPoints files) (sourceFiles files))"
    | (5) "length (selectedFiles ?st4) < 5"
          "f \<in> set (evaluatedPass ?st4 (rootFiles lc ?st4 files))"
    using ev by (auto simp: evaluated_def split: if_splits)
  then show ?thesis
  proof cases
    case 1
    then have "truncatedFile f \<in> set (selectedFiles (afterPriority1 files))"
      unfolding afterPriority1_def using big by (rule runPass_keeps_truncated)
    then show ?thesis using kept_until_output(1) by blast
  next
    case 2
    then have "truncatedFile f \<in> set (selectedFiles (afterPriority2 files))"
      unfolding afterPriority2_def using big by (rule runPass_keeps_truncated)
    then show ?thesis using kept_until_output(2) by blast
  next
    case 3
    then have "truncatedFile f \<in> set (selectedFiles (afterEntryPoints files))"
      unfolding afterEntryPoints_def using big by (rule runPass_keeps_truncated)
    then show ?thesis using kept_until_output(3) by blast
  next
    case 4
    then have "truncatedFile f \<in> set (selectedFiles (afterSourceFiles files))"
      unfolding afterSourceFiles_def using big by (rule sourcePass_keeps_truncated)
    then show ?thesis using kept_until_output(4) by blast
  next
    case 5
    have "truncatedFile f \<in> set (selectedFiles (runPass ?st4 (rootFiles lc ?st4 files)))"
      using 5(2) big by (rule runPass_keeps_truncated)
    then show ?thesis using 5(1)
      by (simp add: selectKeyFiles_def selectRun_def fallbackPass_def)
  qed
qed

lemma origins_append:
  "set (xs @ ys) \<union> truncatedFile ` set (xs @ ys)
   = (set xs \<union> truncatedFile ` set xs) \<union> (set ys \<union> truncatedFile ` set ys)"
  by auto

lemma output_from_evaluated:
  "set (selectKeyFiles lc files)
   \<subseteq> set (evaluated lc files) \<union> truncatedFile ` set (evaluated lc files)"
proof -
  let ?e1 = "evaluatedPass initialState (priority1 files)"
  let ?e2 = "evaluatedPass (afterPriority1 files) (priority2 files)"
  let ?e3 = "evaluatedPass (afterPriority2 files) (entryPoints files)"
  let ?e4 = "evaluatedSource 0 (afterEntryPoints files) (sourceFiles files)"
  let ?st4 = "afterSourceFiles files"
  let ?e5 = "if length (selectedFiles ?st4) < 5
             then evaluatedPass ?st4 (rootFiles lc ?st4 files) else []"
  let ?O = "\<lambda>xs. set xs \<union> truncatedFile ` set xs"
  have 1: "set (selectedFiles (afterPriority1 files)) \<subseteq> ?O ?e1"
    unfolding afterPriority1_def
    using runPass_origin[of initialState "priority1 files"] by (simp add: initialState_def)
  have "set (selectedFiles (afterPriority2 files))
      \<subseteq> set (selectedFiles (afterPriority1 files)) \<union> set ?e2 \<union> truncatedFile ` set ?e2"
    unfolding afterPriority2_def by (rule runPass_origin)
  with 1 have 2: "set (selectedFiles (afterPriority2 files)) \<subseteq> ?O ?e1 \<union> ?O ?e2" by blast
  have "set (selectedFiles (afterEntryPoints files))
      \<subseteq> set (selectedFiles (afterPriority2 files)) \<union> set ?e3 \<union> truncatedFile ` set ?e3"
    unfolding afterEntryPoints_def by (rule runPass_origin)
  with 2 have 3: "set (selectedFiles (afterEntryPoints files)) \<subseteq> ?O ?e1 \<union> ?O ?e2 \<union> ?O ?e3"
    by blast
  have "set (selectedFiles ?st4)
      \<subseteq> set (selectedFiles (afterEntryPoints files)) \<union> set ?e4 \<union> truncatedFile ` set ?e4"
    unfolding afterSourceFiles_def by (rule sourcePass_origin)
  with 3 have 4: "set (selectedFiles ?st4) \<subseteq> ?O ?e1 \<union> ?O ?e2 \<union> ?O ?e3 \<union> ?O ?e4"
    by blast
  have 5: "set (selectKeyFiles lc files) \<subseteq> set (selectedFiles ?st4) \<union> ?O ?e5"
  proof (cases "length (selectedFiles ?st4) < 5")
    case True
    have "set (selectedFiles (runPass ?st4 (rootFiles lc ?st4 files)))
        \<subseteq> set (selectedFiles ?st4) \<union> set (evaluatedPass ?st4 (rootFiles lc ?st4 files))
           \<union> truncatedFile ` set (evaluatedPass ?st4 (rootFiles lc ?st4 files))"
      by (rule runPass_origin)
    then show ?thesis using True
      by (simp add: selectKeyFiles_def selectRun_def fallbackPass_def Un_assoc)
  next
    case False
    then show ?thesis by (simp add: selectKeyFiles_def selectRun_def fallbackPass_def)
  qed
  have "?O (evaluated lc files) = ?O ?e1 \<union> ?O ?e2 \<union> ?O ?e3 \<union> ?O ?e4 \<union> ?O ?e5"
    unfolding evaluated_def origins_append by (simp only: Un_assoc)
  moreover have "set (selectKeyFiles lc files)
      \<subseteq> ?O ?e1 \<union> ?O ?e2 \<union> ?O ?e3 \<union> ?O ?e4 \<union> ?O ?e5"
    using 4 5 by blast
  ultimately show ?thesis by simp
qed

text \<open>
  C4. For every candidate over the per-file cap that \<open>selectKeyFiles\<close> evaluates (that
  is, hands to \<open>addFile\<close> in one of its five loops), the output contains the derived
  record: the original with its content replaced by the first 102400 characters followed by
  the marker, and its size by the length of that content (102400 plus 16 when the content
  is long enough). The record is appended by the call whatever the running total is, the
  loop that evaluated it only extends the selection after it, and so do the loops that
  follow: it is never dropped. In particular the first documentation candidate, which is
  always evaluated, is in the output in truncated form when it is over the cap.
\<close>

theorem oversized_file_truncated_and_kept:
  assumes "MAX_FILE_SIZE < size' f"
  shows "selectedFiles (snd (addFile st f)) = selectedFiles st @ [truncatedFile f]
     \<and> truncatedFile f =
         f\<lparr>FileObject.content := take 102400 (FileObject.content f) @ CHR 0x0A # ''... (truncated)'',
           size' := int (min 102400 (length (FileObject.content f))) + 16\<rparr>
     \<and> size' (truncatedFile f) = int (length (FileObject.content (truncatedFile f)))
     \<and> (\<exists>ys. selectedFiles (runPass st (f # rest)) = selectedFiles st @ [truncatedFile f] @ ys)
     \<and> (n < 20 \<and> \<not> alreadySelected st f \<longrightarrow>
          (\<exists>ys. selectedFiles (sourcePass n st (f # rest))
                = selectedFiles st @ [truncatedFile f] @ ys))
     \<and> (f \<in> set (evaluated localeCompare files) \<longrightarrow>
          truncatedFile f \<in> set (selectKeyFiles localeCompare files))
     \<and> (priority1 files = f # others \<longrightarrow>
          truncatedFile f \<in> set (selectKeyFiles localeCompare files))"
proof -
  let ?st' = "snd (addFile st f)"
  have a: "selectedFiles ?st' = selectedFiles st @ [truncatedFile f]"
    using assms by (simp add: addFile_oversized)
  have b: "truncatedFile f =
         f\<lparr>FileObject.content := take 102400 (FileObject.content f) @ CHR 0x0A # ''... (truncated)'',
           size' := int (min 102400 (length (FileObject.content f))) + 16\<rparr>"
    by (simp add: truncatedFile_def truncatedContent_def truncationMarker_def MAX_FILE_SIZE_def
        min.commute)
  have c: "size' (truncatedFile f) = int (length (FileObject.content (truncatedFile f)))"
    by (simp add: truncatedFile_def)
  have d: "\<exists>ys. selectedFiles (runPass st (f # rest)) = selectedFiles st @ [truncatedFile f] @ ys"
  proof (cases "fst (addFile st f)")
    case True
    obtain ys where "selectedFiles (runPass ?st' rest) = selectedFiles ?st' @ ys"
      using runPass_extends by blast
    then show ?thesis using True a by (cases "addFile st f") simp
  next
    case False
    then show ?thesis using a by (cases "addFile st f") simp
  qed
  have e: "\<exists>ys. selectedFiles (sourcePass n st (f # rest)) = selectedFiles st @ [truncatedFile f] @ ys"
    if "n < 20" "\<not> alreadySelected st f"
  proof (cases "fst (addFile st f)")
    case True
    obtain ys where "selectedFiles (sourcePass (n + 1) ?st' rest) = selectedFiles ?st' @ ys"
      using sourcePass_extends by blast
    then show ?thesis using True a that by (cases "addFile st f") simp
  next
    case False
    then show ?thesis using a that by (cases "addFile st f") simp
  qed
  have g: "truncatedFile f \<in> set (selectKeyFiles localeCompare files)"
    if "f \<in> set (evaluated localeCompare files)"
    using assms that by (rule evaluated_oversized_in_output)
  have h: "truncatedFile f \<in> set (selectKeyFiles localeCompare files)"
    if "priority1 files = f # others"
  proof -
    have "f \<in> set (evaluated localeCompare files)" using that by (simp add: evaluated_def)
    then show ?thesis by (rule g)
  qed
  show ?thesis using a b c d e g h by blast
qed

theorem oversized_file_truncated_and_kept_witness:
  "MAX_FILE_SIZE < size' \<lparr>path = ''web/src/big.ts'', content = replicate 150000 CHR ''x'',
       size' = 150000, type' = File\<rparr>
   \<and> (\<forall>localeCompare.
        evaluated localeCompare
          [\<lparr>path = ''README.md'', content = ''hello'', size' = 5, type' = File\<rparr>,
           \<lparr>path = ''web/src/big.ts'', content = replicate 150000 CHR ''x'', size' = 150000,
             type' = File\<rparr>,
           \<lparr>path = ''web/src/util.ts'', content = ''let x'', size' = 5, type' = File\<rparr>]
        = [\<lparr>path = ''README.md'', content = ''hello'', size' = 5, type' = File\<rparr>,
           \<lparr>path = ''web/src/big.ts'', content = replicate 150000 CHR ''x'', size' = 150000,
             type' = File\<rparr>]
      \<and> selectKeyFiles localeCompare
          [\<lparr>path = ''README.md'', content = ''hello'', size' = 5, type' = File\<rparr>,
           \<lparr>path = ''web/src/big.ts'', content = replicate 150000 CHR ''x'', size' = 150000,
             type' = File\<rparr>,
           \<lparr>path = ''web/src/util.ts'', content = ''let x'', size' = 5, type' = File\<rparr>]
        = [\<lparr>path = ''README.md'', content = ''hello'', size' = 5, type' = File\<rparr>,
           \<lparr>path = ''web/src/big.ts'',
             content = replicate 102400 CHR ''x'' @ CHR 0x0A # ''... (truncated)'',
             size' = 102416, type' = File\<rparr>]
      \<and> truncatedFile \<lparr>path = ''web/src/big.ts'', content = replicate 150000 CHR ''x'',
            size' = 150000, type' = File\<rparr>
        \<in> set (selectKeyFiles localeCompare
          [\<lparr>path = ''README.md'', content = ''hello'', size' = 5, type' = File\<rparr>,
           \<lparr>path = ''web/src/big.ts'', content = replicate 150000 CHR ''x'', size' = 150000,
             type' = File\<rparr>,
           \<lparr>path = ''web/src/util.ts'', content = ''let x'', size' = 5, type' = File\<rparr>]))"
proof -
  let ?readme = "\<lparr>path = ''README.md'', content = ''hello'', size' = 5, type' = File\<rparr>"
  let ?big = "\<lparr>path = ''web/src/big.ts'', content = replicate 150000 CHR ''x'', size' = 150000,
             type' = File\<rparr>"
  let ?util = "\<lparr>path = ''web/src/util.ts'', content = ''let x'', size' = 5, type' = File\<rparr>"
  let ?trunc = "\<lparr>path = ''web/src/big.ts'',
           content = replicate 102400 CHR ''x'' @ CHR 0x0A # ''... (truncated)'',
           size' = 102416, type' = File\<rparr>"
  let ?fs = "[?readme, ?big, ?util]"
  have h1: "MAX_FILE_SIZE < size' ?big" by (simp add: MAX_FILE_SIZE_def)
  have p1: "priority1 ?fs = [?readme]"
    by (simp add: priority1_def fileName_def PRIORITY_1_FILES_def)
  have p2: "priority2 ?fs = []"
    by (simp add: priority2_def fileName_def PRIORITY_2_PATTERNS_def)
  have p3: "entryPoints ?fs = []"
    by (simp add: entryPoints_def fileName_def ENTRY_POINT_PATTERNS_def sortBy_def)
  have p4: "sourceFiles ?fs = [?big, ?util]"
    by (simp add: sourceFiles_def PRIORITY_DIRECTORIES_def sortBy_def sourceCompare_def
        dirIndex_def depth_def)
  have a1: "addFile initialState ?readme = (True, \<lparr>selectedFiles = [?readme], totalSize = 5\<rparr>)"
    by (simp add: addFile_def initialState_def MAX_FILE_SIZE_def MAX_TOTAL_CONTENT_def)
  have s1: "afterPriority1 ?fs = \<lparr>selectedFiles = [?readme], totalSize = 5\<rparr>"
    by (simp add: afterPriority1_def p1 a1)
  have s2: "afterPriority2 ?fs = \<lparr>selectedFiles = [?readme], totalSize = 5\<rparr>"
    by (simp add: afterPriority2_def p2 s1)
  have s3: "afterEntryPoints ?fs = \<lparr>selectedFiles = [?readme], totalSize = 5\<rparr>"
    by (simp add: afterEntryPoints_def p3 s2)
  have a2: "addFile \<lparr>selectedFiles = [?readme], totalSize = 5\<rparr> ?big
      = (False, \<lparr>selectedFiles = [?readme, ?trunc], totalSize = 102421\<rparr>)"
    by (simp add: addFile_def truncatedFile_def truncatedContent_def truncationMarker_def
        MAX_FILE_SIZE_def MAX_TOTAL_CONTENT_def)
  have n2: "\<not> alreadySelected \<lparr>selectedFiles = [?readme], totalSize = 5\<rparr> ?big"
    by (simp add: alreadySelected_def)
  have s4: "afterSourceFiles ?fs = \<lparr>selectedFiles = [?readme, ?trunc], totalSize = 102421\<rparr>"
    by (simp add: afterSourceFiles_def p4 s3 a2 n2)
  have r: "\<And>lc. rootFiles lc \<lparr>selectedFiles = [?readme, ?trunc], totalSize = 102421\<rparr> ?fs = []"
    by (simp add: rootFiles_def alreadySelected_def depth_def sortBy_def)
  have ev: "\<And>lc. evaluated lc ?fs = [?readme, ?big]"
    by (simp add: evaluated_def p1 p2 p3 p4 s1 s2 s3 s4 a1 a2 n2 r)
  have out: "\<And>lc. selectKeyFiles lc ?fs = [?readme, ?trunc]"
    by (simp add: selectKeyFiles_def selectRun_def fallbackPass_def s4 r)
  have kept: "truncatedFile ?big \<in> set (selectKeyFiles lc ?fs)" for lc
  proof -
    have m: "?big \<in> set (evaluated lc ?fs)" unfolding ev by simp
    note t = oversized_file_truncated_and_kept[OF h1, where files = ?fs and localeCompare = lc]
    from t[THEN conjunct2, THEN conjunct2, THEN conjunct2, THEN conjunct2, THEN conjunct2,
        THEN conjunct1] m
    show ?thesis by (rule mp)
  qed
  show ?thesis
  proof (intro conjI allI)
    show "MAX_FILE_SIZE < size' ?big" by (rule h1)
    show "evaluated lc ?fs = [?readme, ?big]" for lc by (rule ev)
    show "selectKeyFiles lc ?fs = [?readme, ?trunc]" for lc by (rule out)
    show "truncatedFile ?big \<in> set (selectKeyFiles lc ?fs)" for lc by (rule kept)
  qed
qed

section \<open>The selector: sorting with a comparator\<close>

lemma set_insertBy: "set (insertBy c x ys) = insert x (set ys)"
  by (induction ys) auto

lemma set_sortBy: "set (sortBy c xs) = set xs"
  unfolding sortBy_def by (induction xs) (simp_all add: set_insertBy)

lemma length_insertBy: "length (insertBy c x ys) = Suc (length ys)"
  by (induction ys) auto

lemma length_sortBy: "length (sortBy c xs) = length xs"
  unfolding sortBy_def by (induction xs) (simp_all add: length_insertBy)

lemma distinct_map_insertBy:
  "distinct (map f (insertBy c x ys)) \<longleftrightarrow> f x \<notin> f ` set ys \<and> distinct (map f ys)"
  by (induction ys) (auto simp: set_insertBy)

lemma distinct_map_sortBy: "distinct (map f (sortBy c xs)) \<longleftrightarrow> distinct (map f xs)"
  unfolding sortBy_def
  by (induction xs) (simp_all add: distinct_map_insertBy set_sortBy[unfolded sortBy_def])

lemma sortBy_Nil: "sortBy c [] = []"
  by (simp add: sortBy_def)

lemma sortBy_Cons: "sortBy c (x # xs) = insertBy c x (sortBy c xs)"
  by (simp add: sortBy_def)

lemma consistent_total: "consistentCompare c \<Longrightarrow> 0 < c a b \<Longrightarrow> c b a \<le> 0"
  unfolding consistentCompare_def by (metis not_less)

lemma consistent_trans: "consistentCompare c \<Longrightarrow> c a b \<le> 0 \<Longrightarrow> c b d \<le> 0 \<Longrightarrow> c a d \<le> 0"
  unfolding consistentCompare_def by blast

lemma consistent_refl: "consistentCompare c \<Longrightarrow> c a a \<le> 0"
  unfolding consistentCompare_def by blast

lemma sortedBy_insertBy:
  assumes "consistentCompare c" and "sortedBy c ys"
  shows "sortedBy c (insertBy c x ys)"
  using assms(2)
proof (induction ys)
  case Nil
  then show ?case by (simp add: sortedBy_def)
next
  case (Cons y ys)
  show ?case
  proof (cases "c x y \<le> 0")
    case True
    have "\<forall>z \<in> set ys. c x z \<le> 0"
      using Cons.prems True consistent_trans[OF assms(1), of x y]
      by (auto simp: sortedBy_def)
    then show ?thesis using True Cons.prems by (simp add: sortedBy_def)
  next
    case False
    then have yx: "c y x \<le> 0" using consistent_total[OF assms(1), of x y] by simp
    have "sortedBy c ys" using Cons.prems by (simp add: sortedBy_def)
    then have "sortedBy c (insertBy c x ys)" by (rule Cons.IH)
    then show ?thesis using False yx Cons.prems
      by (auto simp: sortedBy_def set_insertBy)
  qed
qed

lemma sortedBy_sortBy: "consistentCompare c \<Longrightarrow> sortedBy c (sortBy c xs)"
proof (induction xs)
  case Nil
  then show ?case by (simp add: sortBy_Nil sortedBy_def)
next
  case (Cons x xs)
  then show ?case by (simp add: sortBy_Cons sortedBy_insertBy)
qed

lemma insertBy_front: "sortedBy c (x # ys) \<Longrightarrow> insertBy c x ys = x # ys"
  by (cases ys) (simp_all add: sortedBy_def)

lemma sortBy_sorted_id: "sortedBy c xs \<Longrightarrow> sortBy c xs = xs"
proof (induction xs)
  case Nil
  then show ?case by (simp add: sortBy_Nil)
next
  case (Cons x xs)
  have "sortedBy c xs" using Cons.prems by (simp add: sortedBy_def)
  then have "sortBy c xs = xs" by (rule Cons.IH)
  then show ?case using Cons.prems by (simp add: sortBy_Cons insertBy_front)
qed


lemma sortedBy_filter: "sortedBy c xs \<Longrightarrow> sortedBy c (filter P xs)"
  unfolding sortedBy_def by (rule sorted_wrt_filter)

lemma filter_insertBy:
  assumes "consistentCompare c" and "sortedBy c ys"
  shows "filter P (insertBy c x ys) = (if P x then insertBy c x (filter P ys) else filter P ys)"
  using assms(2)
proof (induction ys)
  case Nil
  then show ?case by simp
next
  case (Cons y ys)
  have sys: "sortedBy c ys" using Cons.prems by (simp add: sortedBy_def)
  show ?case
  proof (cases "c x y \<le> 0")
    case True
    have "\<forall>z \<in> set (y # ys). c x z \<le> 0"
      using Cons.prems True consistent_trans[OF assms(1), of x y]
      by (auto simp: sortedBy_def)
    then have "\<forall>z \<in> set (filter P (y # ys)). c x z \<le> 0" by auto
    moreover have "sortedBy c (filter P (y # ys))" using Cons.prems by (rule sortedBy_filter)
    ultimately have "sortedBy c (x # filter P (y # ys))"
      unfolding sortedBy_def by simp
    then have "insertBy c x (filter P (y # ys)) = x # filter P (y # ys)"
      by (rule insertBy_front)
    then show ?thesis using True by simp
  next
    case False
    then show ?thesis using Cons.IH[OF sys] by simp
  qed
qed

lemma filter_sortBy:
  "consistentCompare c \<Longrightarrow> filter P (sortBy c xs) = sortBy c (filter P xs)"
proof (induction xs)
  case Nil
  then show ?case by (simp add: sortBy_Nil)
next
  case (Cons x xs)
  then show ?case
    by (simp add: sortBy_Cons filter_insertBy sortedBy_sortBy)
qed

lemma sortedBy_before:
  assumes c: "consistentCompare c" and s: "sortedBy c xs"
    and a: "a \<in> set xs" and b: "b \<in> set xs" and ab: "0 < c b a"
  shows "\<exists>us vs ws. xs = us @ a # vs @ b # ws"
proof -
  from b obtain us' ws where xs: "xs = us' @ b # ws" by (auto simp: in_set_conv_decomp)
  have "\<forall>z \<in> set ws. c b z \<le> 0"
    using s unfolding xs sortedBy_def by (simp add: sorted_wrt_append)
  then have "a \<notin> set ws" using ab by auto
  moreover have "a \<noteq> b" using ab consistent_refl[OF c, of b] by auto
  ultimately have "a \<in> set us'" using a xs by auto
  then obtain us vs where "us' = us @ a # vs" by (auto simp: in_set_conv_decomp)
  then show ?thesis using xs by auto
qed

lemma depthCompare_consistent: "consistentCompare depthCompare"
  by (auto simp: consistentCompare_def depthCompare_def)



section \<open>The selector: paths of the selected records\<close>

lemma path_truncatedFile: "path (truncatedFile f) = path f"
  by (simp add: truncatedFile_def)

lemma alreadySelected_iff: "alreadySelected st f \<longleftrightarrow> path f \<in> path ` set (selectedFiles st)"
  by (auto simp: alreadySelected_def list_ex_iff intro: rev_image_eqI)

lemma addFile_paths:
  "map path (selectedFiles (snd (addFile st f))) = map path (selectedFiles st)
   \<or> map path (selectedFiles (snd (addFile st f))) = map path (selectedFiles st) @ [path f]"
  by (simp add: addFile_def Let_def path_truncatedFile)

lemma runPass_paths:
  "\<exists>k. map path (selectedFiles (runPass st cs)) = map path (selectedFiles st) @ take k (map path cs)"
proof (induction cs arbitrary: st)
  case Nil
  then show ?case by simp
next
  case (Cons c cs)
  let ?st' = "snd (addFile st c)"
  show ?case
  proof (cases "fst (addFile st c)")
    case True
    then have r: "runPass st (c # cs) = runPass ?st' cs" by (cases "addFile st c") simp
    obtain k where k: "map path (selectedFiles (runPass ?st' cs))
        = map path (selectedFiles ?st') @ take k (map path cs)"
      using Cons.IH by blast
    have "map path (selectedFiles ?st') = map path (selectedFiles st) @ [path c]"
      using True by (auto simp: addFile_def Let_def path_truncatedFile split: if_splits)
    then show ?thesis using r k by (intro exI[of _ "Suc k"]) simp
  next
    case False
    then have r: "runPass st (c # cs) = ?st'" by (cases "addFile st c") simp
    from addFile_paths[of st c] show ?thesis
    proof
      assume "map path (selectedFiles ?st') = map path (selectedFiles st)"
      then show ?thesis using r by (intro exI[of _ 0]) simp
    next
      assume "map path (selectedFiles ?st') = map path (selectedFiles st) @ [path c]"
      then show ?thesis using r by (intro exI[of _ 1]) simp
    qed
  qed
qed

lemma runPass_distinct_paths:
  assumes "distinct (map path (selectedFiles st))" and "distinct (map path cs)"
    and "path ` set (selectedFiles st) \<inter> path ` set cs = {}"
  shows "distinct (map path (selectedFiles (runPass st cs)))"
proof -
  obtain k where k: "map path (selectedFiles (runPass st cs))
      = map path (selectedFiles st) @ take k (map path cs)"
    using runPass_paths by blast
  have "set (take k (map path cs)) \<subseteq> path ` set cs"
    using set_take_subset[of k "map path cs"] by simp
  then show ?thesis using assms unfolding k by (auto simp: distinct_take)
qed

lemma runPass_paths_subset:
  "path ` set (selectedFiles (runPass st cs)) \<subseteq> path ` set (selectedFiles st) \<union> path ` set cs"
proof -
  obtain k where k: "map path (selectedFiles (runPass st cs))
      = map path (selectedFiles st) @ take k (map path cs)"
    using runPass_paths by blast
  have "set (map path (selectedFiles (runPass st cs)))
        \<subseteq> set (map path (selectedFiles st)) \<union> set (map path cs)"
    unfolding k using set_take_subset[of k "map path cs"] by auto
  then show ?thesis by simp
qed

lemma sourcePass_distinct_paths:
  "distinct (map path (selectedFiles st)) \<Longrightarrow>
   distinct (map path (selectedFiles (sourcePass n st cs)))"
proof (induction cs arbitrary: n st)
  case Nil
  then show ?case by simp
next
  case (Cons c cs)
  show ?case
  proof (cases "20 \<le> n \<or> alreadySelected st c")
    case True
    then show ?thesis using Cons.IH[OF Cons.prems, of n] Cons.prems by auto
  next
    case False
    then have new: "path c \<notin> path ` set (selectedFiles st)"
      by (simp add: alreadySelected_iff)
    have d: "distinct (map path (selectedFiles (snd (addFile st c))))"
      using addFile_paths[of st c] Cons.prems new by auto
    show ?thesis
      using False d Cons.IH[OF d, of "n + 1"] by (cases "addFile st c") auto
  qed
qed

lemma fileName_cong: "path a = path b \<Longrightarrow> fileName a = fileName b"
  by (simp add: fileName_def)

lemma tier_names_distinct:
  "distinct (PRIORITY_1_FILES @ PRIORITY_2_PATTERNS @ ENTRY_POINT_PATTERNS)"
  by code_simp

lemma tiers_disjoint_12: "n \<in> set PRIORITY_1_FILES \<Longrightarrow> n \<notin> set PRIORITY_2_PATTERNS"
  using tier_names_distinct by auto

lemma tiers_disjoint_13: "n \<in> set PRIORITY_1_FILES \<Longrightarrow> n \<notin> set ENTRY_POINT_PATTERNS"
  using tier_names_distinct by auto

lemma tiers_disjoint_23: "n \<in> set PRIORITY_2_PATTERNS \<Longrightarrow> n \<notin> set ENTRY_POINT_PATTERNS"
  using tier_names_distinct by auto

lemma set_entryPoints:
  "set (entryPoints files) = {f \<in> set files. fileName f \<in> set ENTRY_POINT_PATTERNS}"
  by (simp add: entryPoints_def set_sortBy)

lemma afterPriority1_paths:
  "path ` set (selectedFiles (afterPriority1 files)) \<subseteq> path ` set (priority1 files)"
  using runPass_paths_subset[of initialState "priority1 files"]
  by (simp add: afterPriority1_def initialState_def)

lemma afterPriority2_paths:
  "path ` set (selectedFiles (afterPriority2 files))
   \<subseteq> path ` set (priority1 files) \<union> path ` set (priority2 files)"
  using runPass_paths_subset[of "afterPriority1 files" "priority2 files"] afterPriority1_paths[of files]
  unfolding afterPriority2_def by blast

lemma afterPriority1_distinct:
  "distinct (map path files) \<Longrightarrow> distinct (map path (selectedFiles (afterPriority1 files)))"
  unfolding afterPriority1_def
  by (rule runPass_distinct_paths) (simp_all add: initialState_def priority1_def distinct_map_filter)

lemma afterPriority2_distinct:
  assumes "distinct (map path files)"
  shows "distinct (map path (selectedFiles (afterPriority2 files)))"
  unfolding afterPriority2_def
proof (rule runPass_distinct_paths)
  show "distinct (map path (selectedFiles (afterPriority1 files)))"
    using assms by (rule afterPriority1_distinct)
  show "distinct (map path (priority2 files))"
    using assms by (simp add: priority2_def distinct_map_filter)
  show "path ` set (selectedFiles (afterPriority1 files)) \<inter> path ` set (priority2 files) = {}"
  proof (rule ccontr)
    assume "path ` set (selectedFiles (afterPriority1 files)) \<inter> path ` set (priority2 files) \<noteq> {}"
    then obtain p where p: "p \<in> path ` set (selectedFiles (afterPriority1 files))"
      and q: "p \<in> path ` set (priority2 files)" by blast
    from q obtain b where b: "b \<in> set (priority2 files)" and pb: "p = path b" by blast
    from p afterPriority1_paths[of files] obtain a where
      a: "a \<in> set (priority1 files)" and pa: "p = path a" by blast
    have ab: "path a = path b" using pa pb by simp
    have "fileName a \<in> set PRIORITY_1_FILES" using a by (simp add: priority1_def)
    moreover have "fileName a \<in> set PRIORITY_2_PATTERNS"
      using b fileName_cong[OF ab] by (simp add: priority2_def)
    ultimately show False using tiers_disjoint_12 by blast
  qed
qed

lemma afterEntryPoints_distinct:
  assumes "distinct (map path files)"
  shows "distinct (map path (selectedFiles (afterEntryPoints files)))"
  unfolding afterEntryPoints_def
proof (rule runPass_distinct_paths)
  show "distinct (map path (selectedFiles (afterPriority2 files)))"
    using assms by (rule afterPriority2_distinct)
  show "distinct (map path (entryPoints files))"
    using assms by (simp add: entryPoints_def distinct_map_sortBy distinct_map_filter)
  show "path ` set (selectedFiles (afterPriority2 files)) \<inter> path ` set (entryPoints files) = {}"
  proof (rule ccontr)
    assume "path ` set (selectedFiles (afterPriority2 files)) \<inter> path ` set (entryPoints files) \<noteq> {}"
    then obtain p where p: "p \<in> path ` set (selectedFiles (afterPriority2 files))"
      and q: "p \<in> path ` set (entryPoints files)" by blast
    from q obtain b where b: "b \<in> set (entryPoints files)" and pb: "p = path b" by blast
    from p afterPriority2_paths[of files] obtain a where
      a: "a \<in> set (priority1 files) \<or> a \<in> set (priority2 files)" and pa: "p = path a" by blast
    have nb: "fileName b \<in> set ENTRY_POINT_PATTERNS" using b by (simp add: set_entryPoints)
    have "fileName a = fileName b" using pa pb by (intro fileName_cong) simp
    moreover have "fileName a \<in> set PRIORITY_1_FILES \<or> fileName a \<in> set PRIORITY_2_PATTERNS"
      using a by (auto simp: priority1_def priority2_def)
    ultimately show False using nb tiers_disjoint_13[of "fileName b"] tiers_disjoint_23[of "fileName b"]
      by auto
  qed
qed

lemma afterSourceFiles_distinct:
  "distinct (map path files) \<Longrightarrow> distinct (map path (selectedFiles (afterSourceFiles files)))"
  unfolding afterSourceFiles_def
  by (rule sourcePass_distinct_paths) (rule afterEntryPoints_distinct)

lemma rootFiles_subset:
  "set (rootFiles lc st files) \<subseteq> {f \<in> set files. \<not> alreadySelected st f \<and> depth f \<le> 2}"
proof -
  have "set (rootFiles lc st files)
        \<subseteq> set (sortBy (\<lambda>a b. lc (path a) (path b))
            (filter (\<lambda>f. depth f \<le> 2) (filter (\<lambda>f. \<not> alreadySelected st f) files)))"
    unfolding rootFiles_def by (rule set_take_subset)
  then show ?thesis by (auto simp: set_sortBy)
qed

lemma rootFiles_distinct:
  "distinct (map path files) \<Longrightarrow> distinct (map path (rootFiles lc st files))"
  by (simp add: rootFiles_def take_map[symmetric] distinct_take distinct_map_sortBy
      distinct_map_filter)

text \<open>
  C7. For every input whose paths are pairwise distinct, the paths of the output of
  \<open>selectKeyFiles\<close> are pairwise distinct: no loop appends a record whose path is in the
  selection already. (The three name lists are disjoint, the source-directory loop skips
  selected paths, and the fallback candidates are filtered against the selection.)
\<close>

theorem selectKeyFiles_distinct_paths:
  assumes "distinct (map path files)"
  shows "distinct (map path (selectKeyFiles localeCompare files))"
proof (cases "length (selectedFiles (afterSourceFiles files)) < 5")
  case True
  let ?st = "afterSourceFiles files"
  have "distinct (map path (selectedFiles (runPass ?st (rootFiles localeCompare ?st files))))"
  proof (rule runPass_distinct_paths)
    show "distinct (map path (selectedFiles ?st))"
      using assms by (rule afterSourceFiles_distinct)
    show "distinct (map path (rootFiles localeCompare ?st files))"
      using assms by (rule rootFiles_distinct)
    show "path ` set (selectedFiles ?st) \<inter> path ` set (rootFiles localeCompare ?st files) = {}"
    proof (rule ccontr)
      assume "path ` set (selectedFiles ?st) \<inter> path ` set (rootFiles localeCompare ?st files) \<noteq> {}"
      then obtain p where p: "p \<in> path ` set (selectedFiles ?st)"
        and q: "p \<in> path ` set (rootFiles localeCompare ?st files)" by blast
      from q obtain b where b: "b \<in> set (rootFiles localeCompare ?st files)" and "p = path b"
        by blast
      with p have pb: "path b \<in> path ` set (selectedFiles ?st)" by simp
      from b rootFiles_subset[of localeCompare ?st files] have "\<not> alreadySelected ?st b" by blast
      then show False using pb by (simp add: alreadySelected_iff)
    qed
  qed
  then show ?thesis using True by (simp add: selectKeyFiles_def selectRun_def fallbackPass_def)
next
  case False
  then show ?thesis using afterSourceFiles_distinct[OF assms]
    by (simp add: selectKeyFiles_def selectRun_def fallbackPass_def)
qed

theorem selectKeyFiles_distinct_paths_witness:
  "distinct (map path
     [\<lparr>path = ''README.md'', content = ''hello'', size' = 5, type' = File\<rparr>,
      \<lparr>path = ''web/src/index.ts'', content = ''export {}'', size' = 9, type' = File\<rparr>,
      \<lparr>path = ''web/src/util.ts'', content = ''let x'', size' = 5, type' = File\<rparr>,
      \<lparr>path = ''notes.txt'', content = ''todo'', size' = 4, type' = File\<rparr>])
   \<and> (\<forall>localeCompare. distinct (map path (selectKeyFiles localeCompare
     [\<lparr>path = ''README.md'', content = ''hello'', size' = 5, type' = File\<rparr>,
      \<lparr>path = ''web/src/index.ts'', content = ''export {}'', size' = 9, type' = File\<rparr>,
      \<lparr>path = ''web/src/util.ts'', content = ''let x'', size' = 5, type' = File\<rparr>,
      \<lparr>path = ''notes.txt'', content = ''todo'', size' = 4, type' = File\<rparr>])))
   \<and> (\<forall>localeCompare. selectKeyFiles localeCompare
     [\<lparr>path = ''README.md'', content = ''hello'', size' = 5, type' = File\<rparr>,
      \<lparr>path = ''web/src/index.ts'', content = ''export {}'', size' = 9, type' = File\<rparr>,
      \<lparr>path = ''web/src/util.ts'', content = ''let x'', size' = 5, type' = File\<rparr>,
      \<lparr>path = ''notes.txt'', content = ''todo'', size' = 4, type' = File\<rparr>]
     = [\<lparr>path = ''README.md'', content = ''hello'', size' = 5, type' = File\<rparr>,
        \<lparr>path = ''web/src/index.ts'', content = ''export {}'', size' = 9, type' = File\<rparr>,
        \<lparr>path = ''web/src/util.ts'', content = ''let x'', size' = 5, type' = File\<rparr>,
        \<lparr>path = ''notes.txt'', content = ''todo'', size' = 4, type' = File\<rparr>])"
proof -
  let ?fs = "[\<lparr>path = ''README.md'', content = ''hello'', size' = 5, type' = File\<rparr>,
      \<lparr>path = ''web/src/index.ts'', content = ''export {}'', size' = 9, type' = File\<rparr>,
      \<lparr>path = ''web/src/util.ts'', content = ''let x'', size' = 5, type' = File\<rparr>,
      \<lparr>path = ''notes.txt'', content = ''todo'', size' = 4, type' = File\<rparr>]"
  have h: "distinct (map path ?fs)" by simp
  have e: "\<And>lc. selectKeyFiles lc ?fs = ?fs" by (simp add: selector_defs)
  show ?thesis using h selectKeyFiles_distinct_paths[OF h] e by blast
qed

section \<open>The selector: runs in which every candidate fits\<close>

lemma sum_list_nonneg_int: "\<forall>x \<in> set xs. 0 \<le> f x \<Longrightarrow> (0::int) \<le> sum_list (map f xs)"
  by (induction xs) auto



lemma sortedBy_entryPoints: "sortedBy depthCompare (entryPoints files)"
  unfolding entryPoints_def by (rule sortedBy_sortBy[OF depthCompare_consistent])

lemma addFile_true_appends:
  "fst (addFile st c) \<Longrightarrow>
   selectedFiles (snd (addFile st c)) = selectedFiles st @ [asAppended c]"
  by (auto simp: addFile_def Let_def asAppended_def split: if_splits)

lemma completes_run_append:
  "completes st pre \<Longrightarrow> runPass st (pre @ rest) = runPass (runPass st pre) rest"
proof (induction pre arbitrary: st)
  case Nil
  then show ?case by simp
next
  case (Cons c pre)
  obtain ok st' where a: "addFile st c = (ok, st')" by (cases "addFile st c")
  then have "ok" and "completes st' pre" using Cons.prems by simp_all
  then show ?case using a Cons.IH[of st'] by simp
qed

lemma completes_selected:
  "completes st pre \<Longrightarrow>
   selectedFiles (runPass st pre) = selectedFiles st @ map asAppended pre"
proof (induction pre arbitrary: st)
  case Nil
  then show ?case by simp
next
  case (Cons c pre)
  obtain ok st' where a: "addFile st c = (ok, st')" by (cases "addFile st c")
  then have ok: "ok" and c: "completes st' pre" using Cons.prems by simp_all
  have "selectedFiles st' = selectedFiles st @ [asAppended c]"
    using addFile_true_appends[of st c] a ok by simp
  then show ?case using a ok Cons.IH[OF c] by simp
qed

lemma fitsFrom_completes: "fitsFrom st cs \<Longrightarrow> completes st cs"
proof (induction cs arbitrary: st)
  case Nil
  then show ?case by simp
next
  case (Cons c cs)
  have c0: "0 \<le> size' c" and small: "size' c \<le> MAX_FILE_SIZE"
    and rest: "list_all (\<lambda>c. 0 \<le> size' c \<and> size' c \<le> MAX_FILE_SIZE) cs"
    and tot: "totalSize st + size' c + sum_list (map size' cs) \<le> MAX_TOTAL_CONTENT"
    using Cons.prems by (simp_all add: fitsFrom_def)
  have "0 \<le> sum_list (map size' cs)"
    using rest by (intro sum_list_nonneg_int) (simp add: list_all_iff)
  then have fit: "totalSize st + size' c \<le> MAX_TOTAL_CONTENT" using tot by simp
  let ?st' = "\<lparr>selectedFiles = selectedFiles st @ [c], totalSize = totalSize st + size' c\<rparr>"
  have a: "addFile st c = (True, ?st')" using small fit by (rule addFile_accepted)
  have "fitsFrom ?st' cs" using rest tot by (simp add: fitsFrom_def)
  then have "completes ?st' cs" by (rule Cons.IH)
  then show ?case using a by simp
qed

lemma sortedBy_all_equal:
  "(\<And>x y. x \<in> set xs \<Longrightarrow> y \<in> set xs \<Longrightarrow> c x y \<le> 0) \<Longrightarrow> sortedBy c xs"
  unfolding sortedBy_def by (induction xs) auto

lemma entryPoints_stable:
  "filter (\<lambda>f. depth f = d) (entryPoints files)
   = filter (\<lambda>f. depth f = d) (filter (\<lambda>f. fileName f \<in> set ENTRY_POINT_PATTERNS) files)"
proof -
  let ?X = "filter (\<lambda>f. depth f = d) (filter (\<lambda>f. fileName f \<in> set ENTRY_POINT_PATTERNS) files)"
  have "filter (\<lambda>f. depth f = d) (entryPoints files) = sortBy depthCompare ?X"
    unfolding entryPoints_def by (rule filter_sortBy[OF depthCompare_consistent])
  also have "\<dots> = ?X"
    by (rule sortBy_sorted_id, rule sortedBy_all_equal) (simp add: depthCompare_def)
  finally show ?thesis .
qed

lemma takeWhile_until:
  "b \<notin> set ys \<Longrightarrow> takeWhile (\<lambda>c. c \<noteq> b) (ys @ b # zs) = ys"
  by (induction ys) auto

lemma shallower_before_first:
  assumes a: "a \<in> set (entryPoints files)" and b: "b \<in> set (entryPoints files)"
    and d: "depth a < depth b"
  shows "\<exists>us vs ws. candidatesUpTo b (entryPoints files) = us @ a # vs @ [b]
           \<and> entryPoints files = candidatesUpTo b (entryPoints files) @ ws"
proof -
  from b obtain ys zs where e: "entryPoints files = ys @ b # zs" and nb: "b \<notin> set ys"
    using split_list_first[of b "entryPoints files"] by blast
  have tw: "takeWhile (\<lambda>c. c \<noteq> b) (entryPoints files) = ys"
    unfolding e using nb by (rule takeWhile_until)
  have srt: "sorted_wrt (\<lambda>x y. depthCompare x y \<le> 0) (ys @ b # zs)"
    using sortedBy_entryPoints[of files] unfolding e sortedBy_def .
  have "\<forall>z \<in> set zs. depth b \<le> depth z"
    using srt by (auto simp: sorted_wrt_append depthCompare_def)
  then have "a \<notin> set zs" using d by auto
  moreover have "a \<noteq> b" using d by auto
  ultimately have "a \<in> set ys" using a e by auto
  then obtain us vs where ys: "ys = us @ a # vs" by (auto simp: in_set_conv_decomp)
  have "candidatesUpTo b (entryPoints files) = us @ a # vs @ [b]"
    unfolding candidatesUpTo_def tw ys by simp
  moreover have "entryPoints files = candidatesUpTo b (entryPoints files) @ zs"
    unfolding candidatesUpTo_def tw using e by simp
  ultimately show ?thesis by blast
qed

lemma appended_in_order:
  assumes a: "a \<in> set (entryPoints files)" and b: "b \<in> set (entryPoints files)"
    and d: "depth a < depth b"
    and sa: "size' a \<le> MAX_FILE_SIZE" and sb: "size' b \<le> MAX_FILE_SIZE"
    and c: "completes (afterPriority2 files) (candidatesUpTo b (entryPoints files))"
  shows "\<exists>us vs ws. selectKeyFiles lc files = us @ a # vs @ b # ws"
proof -
  let ?st2 = "afterPriority2 files"
  let ?P = "candidatesUpTo b (entryPoints files)"
  obtain us vs ws where P: "?P = us @ a # vs @ [b]" and e: "entryPoints files = ?P @ ws"
    using shallower_before_first[OF a b d] by blast
  have "afterEntryPoints files = runPass (runPass ?st2 ?P) ws"
    unfolding afterEntryPoints_def using completes_run_append[OF c, of ws] e by simp
  then obtain y3 where 3: "selectedFiles (afterEntryPoints files)
      = selectedFiles (runPass ?st2 ?P) @ y3"
    using runPass_extends[of "runPass ?st2 ?P" ws] by auto
  have "selectedFiles (runPass ?st2 ?P) = selectedFiles ?st2 @ map asAppended ?P"
    using c by (rule completes_selected)
  also have "map asAppended ?P = map asAppended us @ a # map asAppended vs @ [b]"
    unfolding P using sa sb by (simp add: asAppended_def)
  finally have 2: "selectedFiles (runPass ?st2 ?P)
      = selectedFiles ?st2 @ map asAppended us @ a # map asAppended vs @ [b]" .
  obtain y4 y5 where 4: "selectedFiles (afterSourceFiles files)
      = selectedFiles (afterEntryPoints files) @ y4"
    and 5: "selectKeyFiles lc files = selectedFiles (afterSourceFiles files) @ y5"
    using later_passes_extend[of files lc] by blast
  have "selectKeyFiles lc files
      = (selectedFiles ?st2 @ map asAppended us) @ a # map asAppended vs @ b # (y3 @ y4 @ y5)"
    unfolding 5 4 3 2 by simp
  then show ?thesis by blast
qed

text \<open>
  C9, as stated: whenever \<^verbatim>\<open>index.js\<close> and \<^verbatim>\<open>src/app/index.js\<close> both fit under the
  aggregate cap and no earlier tier takes them, the root-level file comes first in the
  output. This fails when the entry-point loop is cut short before it reaches them: below,
  \<^verbatim>\<open>main.js\<close> (60000 bytes) is rejected first, the source-directory loop then appends
  \<^verbatim>\<open>src/app/index.js\<close>, and the fallback loop appends \<^verbatim>\<open>index.js\<close> after it, or not
  at all when the locale orders \<^verbatim>\<open>main.js\<close> first.
\<close>

theorem entry_point_order_counterexample:
  "priority1
     [\<lparr>path = ''main.js'', content = replicate 60000 CHR ''m'', size' = 60000, type' = File\<rparr>,
      \<lparr>path = ''index.js'', content = ''let a = 1;'', size' = 10, type' = File\<rparr>,
      \<lparr>path = ''src/app/index.js'', content = ''let b = 2;'', size' = 10, type' = File\<rparr>] = []
   \<and> priority2
     [\<lparr>path = ''main.js'', content = replicate 60000 CHR ''m'', size' = 60000, type' = File\<rparr>,
      \<lparr>path = ''index.js'', content = ''let a = 1;'', size' = 10, type' = File\<rparr>,
      \<lparr>path = ''src/app/index.js'', content = ''let b = 2;'', size' = 10, type' = File\<rparr>] = []
   \<and> (\<forall>localeCompare.
     selectKeyFiles localeCompare
       [\<lparr>path = ''main.js'', content = replicate 60000 CHR ''m'', size' = 60000, type' = File\<rparr>,
        \<lparr>path = ''index.js'', content = ''let a = 1;'', size' = 10, type' = File\<rparr>,
        \<lparr>path = ''src/app/index.js'', content = ''let b = 2;'', size' = 10, type' = File\<rparr>]
     = (if localeCompare ''main.js'' ''index.js'' \<le> 0
        then [\<lparr>path = ''src/app/index.js'', content = ''let b = 2;'', size' = 10, type' = File\<rparr>]
        else [\<lparr>path = ''src/app/index.js'', content = ''let b = 2;'', size' = 10, type' = File\<rparr>,
              \<lparr>path = ''index.js'', content = ''let a = 1;'', size' = 10, type' = File\<rparr>]))"
  by (simp add: selector_defs)

text \<open>
  C9, amended. The candidates of the entry-point loop are ordered by ascending path depth,
  candidates of equal depth keeping their input order. For two entry-point candidates \<open>a\<close>
  and \<open>b\<close> of the input with \<open>a\<close> shallower than \<open>b\<close>: when neither is over the
  per-file cap and the entry-point loop is not stopped before it has handled \<open>b\<close>
  (\<open>addFile\<close> returns true on every entry-point candidate up to and including \<open>b\<close>),
  \<open>a\<close> appears in the output strictly before \<open>b\<close>. That is the case in particular when
  the entry-point candidates up to and including \<open>b\<close> have sizes between 0 and the
  per-file cap whose sum, added to the running total at the start of the entry-point loop,
  is within the aggregate cap: then \<^verbatim>\<open>index.js\<close> appears strictly before
  \<^verbatim>\<open>src/app/index.js\<close>, whatever the earlier loops rejected.
\<close>

theorem entry_points_shallower_first:
  assumes "a \<in> set files" and "b \<in> set files"
    and "fileName a \<in> set ENTRY_POINT_PATTERNS" and "fileName b \<in> set ENTRY_POINT_PATTERNS"
    and "depth a < depth b"
  shows "sorted (map depth (entryPoints files))
     \<and> filter (\<lambda>f. depth f = d) (entryPoints files)
       = filter (\<lambda>f. depth f = d) (filter (\<lambda>f. fileName f \<in> set ENTRY_POINT_PATTERNS) files)
     \<and> (size' a \<le> MAX_FILE_SIZE \<and> size' b \<le> MAX_FILE_SIZE
         \<and> completes (afterPriority2 files) (candidatesUpTo b (entryPoints files))
        \<longrightarrow> (\<exists>us vs ws. selectKeyFiles localeCompare files = us @ a # vs @ b # ws))
     \<and> (fitsFrom (afterPriority2 files) (candidatesUpTo b (entryPoints files))
        \<longrightarrow> (\<exists>us vs ws. selectKeyFiles localeCompare files = us @ a # vs @ b # ws))"
proof -
  have "sorted_wrt (\<lambda>x y. depth x \<le> depth y) (entryPoints files)"
    using sortedBy_entryPoints[of files] by (simp add: sortedBy_def depthCompare_def)
  then have 1: "sorted (map depth (entryPoints files))" by (simp add: sorted_map)
  have a: "a \<in> set (entryPoints files)" and b: "b \<in> set (entryPoints files)"
    using assms(1-4) by (simp_all add: set_entryPoints)
  have 3: "\<exists>us vs ws. selectKeyFiles localeCompare files = us @ a # vs @ b # ws"
    if "size' a \<le> MAX_FILE_SIZE" "size' b \<le> MAX_FILE_SIZE"
      "completes (afterPriority2 files) (candidatesUpTo b (entryPoints files))"
    using a b assms(5) that by (rule appended_in_order)
  have 4: "\<exists>us vs ws. selectKeyFiles localeCompare files = us @ a # vs @ b # ws"
    if f: "fitsFrom (afterPriority2 files) (candidatesUpTo b (entryPoints files))"
  proof -
    obtain us vs ws where P: "candidatesUpTo b (entryPoints files) = us @ a # vs @ [b]"
      using shallower_before_first[OF a b assms(5)] by blast
    have "size' a \<le> MAX_FILE_SIZE" "size' b \<le> MAX_FILE_SIZE"
      using f unfolding P by (simp_all add: fitsFrom_def)
    then show ?thesis using 3 fitsFrom_completes[OF f] by blast
  qed
  show ?thesis using 1 entryPoints_stable[of d files] 3 4 by blast
qed

theorem entry_points_shallower_first_witness:
  "afterPriority2
     [\<lparr>path = ''README.md'', content = replicate 60000 CHR ''r'', size' = 60000, type' = File\<rparr>,
      \<lparr>path = ''src/app/index.js'', content = ''let b = 2;'', size' = 10, type' = File\<rparr>,
      \<lparr>path = ''index.js'', content = ''let a = 1;'', size' = 10, type' = File\<rparr>]
     = initialState
   \<and> candidatesUpTo
       \<lparr>path = ''src/app/index.js'', content = ''let b = 2;'', size' = 10, type' = File\<rparr>
       (entryPoints
         [\<lparr>path = ''README.md'', content = replicate 60000 CHR ''r'', size' = 60000, type' = File\<rparr>,
          \<lparr>path = ''src/app/index.js'', content = ''let b = 2;'', size' = 10, type' = File\<rparr>,
          \<lparr>path = ''index.js'', content = ''let a = 1;'', size' = 10, type' = File\<rparr>])
     = [\<lparr>path = ''index.js'', content = ''let a = 1;'', size' = 10, type' = File\<rparr>,
        \<lparr>path = ''src/app/index.js'', content = ''let b = 2;'', size' = 10, type' = File\<rparr>]
   \<and> completes initialState
       [\<lparr>path = ''index.js'', content = ''let a = 1;'', size' = 10, type' = File\<rparr>,
        \<lparr>path = ''src/app/index.js'', content = ''let b = 2;'', size' = 10, type' = File\<rparr>]
   \<and> fitsFrom initialState
       [\<lparr>path = ''index.js'', content = ''let a = 1;'', size' = 10, type' = File\<rparr>,
        \<lparr>path = ''src/app/index.js'', content = ''let b = 2;'', size' = 10, type' = File\<rparr>]
   \<and> (\<forall>localeCompare.
        selectKeyFiles localeCompare
          [\<lparr>path = ''README.md'', content = replicate 60000 CHR ''r'', size' = 60000, type' = File\<rparr>,
           \<lparr>path = ''src/app/index.js'', content = ''let b = 2;'', size' = 10, type' = File\<rparr>,
           \<lparr>path = ''index.js'', content = ''let a = 1;'', size' = 10, type' = File\<rparr>]
        = [\<lparr>path = ''index.js'', content = ''let a = 1;'', size' = 10, type' = File\<rparr>,
           \<lparr>path = ''src/app/index.js'', content = ''let b = 2;'', size' = 10, type' = File\<rparr>])
   \<and> (\<forall>localeCompare. \<exists>us vs ws.
        selectKeyFiles localeCompare
          [\<lparr>path = ''README.md'', content = replicate 60000 CHR ''r'', size' = 60000, type' = File\<rparr>,
           \<lparr>path = ''src/app/index.js'', content = ''let b = 2;'', size' = 10, type' = File\<rparr>,
           \<lparr>path = ''index.js'', content = ''let a = 1;'', size' = 10, type' = File\<rparr>]
        = us @ \<lparr>path = ''index.js'', content = ''let a = 1;'', size' = 10, type' = File\<rparr>
             # vs @ \<lparr>path = ''src/app/index.js'', content = ''let b = 2;'', size' = 10, type' = File\<rparr>
             # ws)"
proof -
  let ?r = "\<lparr>path = ''README.md'', content = replicate 60000 CHR ''r'', size' = 60000, type' = File\<rparr>"
  let ?a = "\<lparr>path = ''index.js'', content = ''let a = 1;'', size' = 10, type' = File\<rparr>"
  let ?b = "\<lparr>path = ''src/app/index.js'', content = ''let b = 2;'', size' = 10, type' = File\<rparr>"
  let ?fs = "[?r, ?b, ?a]"
  have p1: "priority1 ?fs = [?r]"
    by (simp add: priority1_def fileName_def PRIORITY_1_FILES_def)
  have p2: "priority2 ?fs = []"
    by (simp add: priority2_def fileName_def PRIORITY_2_PATTERNS_def)
  have p3: "entryPoints ?fs = [?a, ?b]"
    by (simp add: entryPoints_def fileName_def ENTRY_POINT_PATTERNS_def sortBy_def
        depthCompare_def depth_def)
  have s2: "afterPriority2 ?fs = initialState"
    by (simp add: afterPriority2_def afterPriority1_def p1 p2 addFile_def initialState_def
        MAX_FILE_SIZE_def MAX_TOTAL_CONTENT_def)
  have up: "candidatesUpTo ?b (entryPoints ?fs) = [?a, ?b]"
    by (simp add: p3 candidatesUpTo_def)
  have c: "completes initialState [?a, ?b]"
    by (simp add: addFile_def initialState_def MAX_FILE_SIZE_def MAX_TOTAL_CONTENT_def)
  have f: "fitsFrom initialState [?a, ?b]"
    by (simp add: fitsFrom_def initialState_def MAX_FILE_SIZE_def MAX_TOTAL_CONTENT_def)
  have out: "\<And>lc. selectKeyFiles lc ?fs = [?a, ?b]"
    by (simp add: selector_defs)
  have h1: "?a \<in> set ?fs" and h2: "?b \<in> set ?fs" by simp_all
  have h3: "fileName ?a \<in> set ENTRY_POINT_PATTERNS" and h4: "fileName ?b \<in> set ENTRY_POINT_PATTERNS"
    by (simp_all add: fileName_def ENTRY_POINT_PATTERNS_def)
  have h5: "depth ?a < depth ?b" by (simp add: depth_def)
  have ex: "\<exists>us vs ws. selectKeyFiles lc ?fs = us @ ?a # vs @ ?b # ws" for lc
  proof -
    note t = entry_points_shallower_first[OF h1 h2 h3 h4 h5, where localeCompare = lc]
    have "completes (afterPriority2 ?fs) (candidatesUpTo ?b (entryPoints ?fs))"
      unfolding s2 up by (rule c)
    moreover have "size' ?a \<le> MAX_FILE_SIZE" "size' ?b \<le> MAX_FILE_SIZE"
      by (simp_all add: MAX_FILE_SIZE_def)
    ultimately show ?thesis
      using t[THEN conjunct2, THEN conjunct2, THEN conjunct1] by blast
  qed
  show ?thesis
  proof (intro conjI allI)
    show "afterPriority2 ?fs = initialState" by (rule s2)
    show "candidatesUpTo ?b (entryPoints ?fs) = [?a, ?b]" by (rule up)
    show "completes initialState [?a, ?b]" by (rule c)
    show "fitsFrom initialState [?a, ?b]" by (rule f)
    show "selectKeyFiles lc ?fs = [?a, ?b]" for lc by (rule out)
    show "\<exists>us vs ws. selectKeyFiles lc ?fs = us @ ?a # vs @ ?b # ws" for lc by (rule ex)
  qed
qed

section \<open>The selector: idempotence\<close>













































end
